theory Spec2Isabelle
  imports Complex_Main
begin

section \<open>Live voice session: playback scheduling (LiveTrivia, \<open>onmessage\<close>)\<close>

text \<open>
  Times (\<open>ctx.currentTime\<close>, \<open>nextStartTimeRef.current\<close>, buffer durations) are
  JavaScript numbers in the source. They are modelled as exact rationals: the claims are
  about the scheduling rule, not about rounding.
\<close>

record AudioBuffer =
  sampleCount :: nat
  sampleRate :: nat
  numberOfChannels :: nat

text \<open>
  Modelled from the spec: \<open>AudioBuffer.duration\<close> is a property of the platform object
  that \<open>decodeAudioData\<close> (services/audioUtils, absent from the sources) returns; the
  spec gives it as \<open>d = sampleCount / sampleRate\<close>.
\<close>

definition duration :: "AudioBuffer \<Rightarrow> rat" where
  "duration b = of_nat (sampleCount b) / of_nat (sampleRate b)"

text \<open>
  Modelled from the spec: \<open>decodeAudioData(bytes, ctx, sampleRate, numChannels)\<close> and
  \<open>base64ToUint8Array\<close> live in services/audioUtils, which is absent from the sources.
  The spec says a chunk is decoded to a sample buffer at its declared rate and channels.
  What the payload holds is a parameter \<open>dec\<close>: the number of sample frames of the
  payload, or \<open>None\<close> when the payload is malformed and decoding throws.
\<close>

definition decodeAudioData ::
  "(string \<Rightarrow> nat option) \<Rightarrow> string \<Rightarrow> nat \<Rightarrow> nat \<Rightarrow> AudioBuffer option" where
  "decodeAudioData dec payload rate chans =
     (case dec payload of
        None \<Rightarrow> None
      | Some n \<Rightarrow> Some \<lparr>sampleCount = n, sampleRate = rate, numberOfChannels = chans\<rparr>)"

text \<open>
  An \<open>AudioBufferSourceNode\<close>: every \<open>ctx.createBufferSource()\<close> is a new object
  (\<open>node_id\<close>); \<open>startTime\<close> is the argument given to \<open>source.start\<close>.
\<close>

record source_node =
  node_id :: nat
  buffer :: AudioBuffer
  startTime :: rat

text \<open>
  What the handler reads of a \<open>LiveServerMessage\<close>:
  \<open>msg.serverContent?.modelTurn?.parts?.[0]?.inlineData?.data\<close> and
  \<open>msg.serverContent?.interrupted\<close>.
\<close>

record LiveServerMessage =
  inlineData :: "string option"
  interrupted :: bool

text \<open>
  The refs the handler mutates, with two logs of the effects it has on the audio graph:
  \<open>started\<close> lists the \<open>source.start\<close> calls (the clock at the call, and the node with
  the start time it was given), \<open>stopped\<close> the nodes on which \<open>stop()\<close> was called.
\<close>

record scheduler =
  audioContextRef :: bool
  nextStartTimeRef :: rat
  sourcesRef :: "source_node list"
  started :: "(rat \<times> source_node) list"
  stopped :: "nat list"
  created :: nat

text \<open>\<open>useRef(0)\<close>, \<open>useRef(new Set())\<close>; \<open>audioContextRef.current = ctx\<close> in initSession.\<close>

definition initial_scheduler :: scheduler where
  "initial_scheduler =
     \<lparr>audioContextRef = True, nextStartTimeRef = 0, sourcesRef = [],
      started = [], stopped = [], created = 0\<rparr>"

datatype outcome = Resolved | Rejected

text \<open>\<open>if (base64Audio)\<close>: \<open>undefined\<close> and the empty string are falsy.\<close>

definition truthy :: "string option \<Rightarrow> bool" where
  "truthy d = (case d of None \<Rightarrow> False | Some s \<Rightarrow> s \<noteq> [])"

text \<open>Line 351, "Sync timing": \<open>nextStartTime = Math.max(nextStartTime, ctx.currentTime)\<close>.\<close>

definition sync_timing :: "rat \<Rightarrow> scheduler \<Rightarrow> scheduler" where
  "sync_timing now s = s\<lparr>nextStartTimeRef := max (nextStartTimeRef s) now\<rparr>"

text \<open>
  Lines 356 to 366, after the decode: create the source, start it at the cursor, advance
  the cursor by the buffer's duration, add the source to the live set. \<open>t\<close> is the clock
  at that moment; the code does not read it, it only stamps the log.
\<close>

definition schedule_source :: "rat \<Rightarrow> AudioBuffer \<Rightarrow> scheduler \<Rightarrow> scheduler" where
  "schedule_source t b s =
     (let src = \<lparr>node_id = created s, buffer = b, startTime = nextStartTimeRef s\<rparr>
      in s\<lparr>started := started s @ [(t, src)],
           nextStartTimeRef := nextStartTimeRef s + duration b,
           sourcesRef := sourcesRef s @ [src],
           created := Suc (created s)\<rparr>)"

text \<open>Lines 371 to 375: stop every live source, clear the set, reset the cursor to 0.\<close>

definition handle_interrupted :: "LiveServerMessage \<Rightarrow> scheduler \<Rightarrow> scheduler" where
  "handle_interrupted msg s =
     (if interrupted msg
      then s\<lparr>stopped := stopped s @ map node_id (sourcesRef s),
             sourcesRef := [],
             nextStartTimeRef := 0\<rparr>
      else s)"

text \<open>\<open>source.onended\<close>: the source is deleted from the live set.\<close>

definition onended :: "nat \<Rightarrow> scheduler \<Rightarrow> scheduler" where
  "onended i s = s\<lparr>sourcesRef := filter (\<lambda>n. node_id n \<noteq> i) (sourcesRef s)\<rparr>"

text \<open>
  The handler up to its \<open>await\<close> (lines 346 to 354). The result says whether the handler
  is now suspended on the decode of a payload.
\<close>

definition onmessage_begin :: "rat \<Rightarrow> LiveServerMessage \<Rightarrow> scheduler \<Rightarrow> bool \<times> scheduler" where
  "onmessage_begin now msg s =
     (if truthy (inlineData msg) \<and> audioContextRef s
      then (True, sync_timing now s)
      else (False, s))"

text \<open>
  The handler from the \<open>await\<close> on (lines 354 to 375), at clock \<open>t\<close>. A decode that
  throws rejects the handler's promise: nothing after line 354 runs, the interruption
  block included.
\<close>

definition onmessage_resume ::
  "(string \<Rightarrow> nat option) \<Rightarrow> rat \<Rightarrow> LiveServerMessage \<Rightarrow> scheduler \<Rightarrow> outcome \<times> scheduler" where
  "onmessage_resume dec t msg s =
     (case decodeAudioData dec (the (inlineData msg)) 24000 1 of
        None \<Rightarrow> (Rejected, s)
      | Some b \<Rightarrow> (Resolved, handle_interrupted msg (schedule_source t b s)))"

text \<open>
  The special case in which the decode completes before any other event is handled: the
  handler runs from its beginning to its end in one step. The general case, in which
  other events are handled while the handler is suspended, is \<open>async_step\<close> below.
\<close>

definition onmessage ::
  "(string \<Rightarrow> nat option) \<Rightarrow> rat \<Rightarrow> LiveServerMessage \<Rightarrow> scheduler \<Rightarrow> outcome \<times> scheduler" where
  "onmessage dec now msg s =
     (case onmessage_begin now msg s of
        (True, s1) \<Rightarrow> onmessage_resume dec now msg s1
      | (False, s1) \<Rightarrow> (Resolved, handle_interrupted msg s1))"

text \<open>
  Inbound events in receipt order, each with the clock at which it is handled: a message,
  or the natural end of a source. The caller does not look at the handler's promise: a
  rejected handler leaves the state it reached, and the next event is handled as usual.
\<close>

datatype event = Message rat LiveServerMessage | Ended nat

fun step :: "(string \<Rightarrow> nat option) \<Rightarrow> scheduler \<Rightarrow> event \<Rightarrow> scheduler" where
  "step dec s (Message now msg) = snd (onmessage dec now msg s)"
| "step dec s (Ended i) = onended i s"

definition run :: "(string \<Rightarrow> nat option) \<Rightarrow> scheduler \<Rightarrow> event list \<Rightarrow> scheduler" where
  "run dec s evs = foldl (step dec) s evs"

subsection \<open>Predicates used to state the scheduler's properties\<close>

text \<open>
  \<open>chain c ns c'\<close>: starting from cursor \<open>c\<close>, every node of \<open>ns\<close> starts no earlier than
  the end of the one before it (and the first no earlier than \<open>c\<close>), and \<open>c'\<close> is no
  earlier than the end of the last.
\<close>

fun chain :: "rat \<Rightarrow> source_node list \<Rightarrow> rat \<Rightarrow> bool" where
  "chain c [] c' = (c \<le> c')"
| "chain c (n # ns) c' = (c \<le> startTime n \<and> chain (startTime n + duration (buffer n)) ns c')"

definition no_interruption :: "event \<Rightarrow> bool" where
  "no_interruption e = (case e of Message t m \<Rightarrow> \<not> interrupted m | Ended i \<Rightarrow> True)"

text \<open>
  Two scheduler states that agree on everything but the cursor, and whose cursors give
  the same start time to any chunk handled at clock \<open>t\<close> or later.
\<close>

definition same_but_cursor :: "rat \<Rightarrow> scheduler \<Rightarrow> scheduler \<Rightarrow> bool" where
  "same_but_cursor t s1 s2 =
     (audioContextRef s1 = audioContextRef s2 \<and> sourcesRef s1 = sourcesRef s2
      \<and> started s1 = started s2 \<and> stopped s1 = stopped s2 \<and> created s1 = created s2
      \<and> max (nextStartTimeRef s1) t = max (nextStartTimeRef s2) t)"

subsection \<open>The handler with other events running during its \<open>await\<close>\<close>

text \<open>
  \<open>onmessage\<close> is an async function: at the \<open>await\<close> of line 354 it is suspended and
  other events may be handled before it goes on. \<open>awaiting\<close> holds the messages whose
  handlers are suspended there, oldest first. Every event carries the clock at which it
  happens: a message arrives (the handler runs up to the \<open>await\<close>, or to its end when it
  has no audio to decode), the decode of the \<open>k\<close>-th suspended handler completes (the
  handler runs from the \<open>await\<close> to its end), a source ends.
\<close>

record world =
  sched :: scheduler
  awaiting :: "LiveServerMessage list"

datatype async_event = Arrive LiveServerMessage | DecodeDone nat | SourceEnded nat

fun async_step :: "(string \<Rightarrow> nat option) \<Rightarrow> world \<Rightarrow> rat \<times> async_event \<Rightarrow> world" where
  "async_step dec w (t, Arrive msg) =
     (case onmessage_begin t msg (sched w) of
        (True, s1) \<Rightarrow> w\<lparr>sched := s1, awaiting := awaiting w @ [msg]\<rparr>
      | (False, s1) \<Rightarrow> w\<lparr>sched := handle_interrupted msg s1\<rparr>)"
| "async_step dec w (t, DecodeDone k) =
     (if k < length (awaiting w)
      then w\<lparr>sched := snd (onmessage_resume dec t (awaiting w ! k) (sched w)),
             awaiting := take k (awaiting w) @ drop (Suc k) (awaiting w)\<rparr>
      else w)"
| "async_step dec w (t, SourceEnded i) = w\<lparr>sched := onended i (sched w)\<rparr>"

definition async_run ::
  "(string \<Rightarrow> nat option) \<Rightarrow> world \<Rightarrow> (rat \<times> async_event) list \<Rightarrow> world" where
  "async_run dec w evs = foldl (async_step dec) w evs"

text \<open>A world in which no handler is suspended.\<close>

definition idle_world :: "scheduler \<Rightarrow> world" where
  "idle_world s = \<lparr>sched = s, awaiting = []\<rparr>"

text \<open>An event of the interleaved stream that carries no interruption.\<close>

definition quiet :: "rat \<times> async_event \<Rightarrow> bool" where
  "quiet e = (case snd e of Arrive m \<Rightarrow> \<not> interrupted m | DecodeDone k \<Rightarrow> True
              | SourceEnded i \<Rightarrow> True)"

text \<open>
  A message arrives at clock \<open>t\<close> or later (respectively \<open>t\<close> or earlier); the event is
  the natural end of a source.
\<close>

definition arrives_after :: "rat \<Rightarrow> rat \<times> async_event \<Rightarrow> bool" where
  "arrives_after t e = (case snd e of Arrive m \<Rightarrow> t \<le> fst e | DecodeDone k \<Rightarrow> True
                        | SourceEnded i \<Rightarrow> True)"



text \<open>
  The events of a stream from which the oldest suspended handler is absent: its decode
  completion is dropped, and until then every other suspended handler stands one place
  further to the front.
\<close>

fun forget_head :: "(rat \<times> async_event) list \<Rightarrow> (rat \<times> async_event) list" where
  "forget_head [] = []"
| "forget_head ((t, DecodeDone 0) # es) = es"
| "forget_head ((t, DecodeDone (Suc k)) # es) = (t, DecodeDone k) # forget_head es"
| "forget_head ((t, Arrive m) # es) = (t, Arrive m) # forget_head es"
| "forget_head ((t, SourceEnded i) # es) = (t, SourceEnded i) # forget_head es"

text \<open>
  Two worlds whose schedulers agree but for the cursor, as \<open>same_but_cursor\<close> has it,
  the cursors being equal as soon as a handler is suspended in the second.
\<close>

definition in_step :: "rat \<Rightarrow> world \<Rightarrow> world \<Rightarrow> bool" where
  "in_step t w1 w2 =
     (same_but_cursor t (sched w1) (sched w2)
      \<and> (nextStartTimeRef (sched w1) = nextStartTimeRef (sched w2) \<or> awaiting w2 = []))"

text \<open>Two worlds that agree on everything but the log of the sources started so far.\<close>

definition same_but_log :: "world \<Rightarrow> world \<Rightarrow> bool" where
  "same_but_log w1 w2 =
     (awaiting w1 = awaiting w2
      \<and> audioContextRef (sched w1) = audioContextRef (sched w2)
      \<and> nextStartTimeRef (sched w1) = nextStartTimeRef (sched w2)
      \<and> sourcesRef (sched w1) = sourcesRef (sched w2)
      \<and> stopped (sched w1) = stopped (sched w2)
      \<and> created (sched w1) = created (sched w2))"

section \<open>Live voice session: capture, the start turn and teardown\<close>

text \<open>
  What the session sends, in the order the sends are registered on \<open>sessionPromise\<close>
  (callbacks of one promise run in the order they were attached): a client turn
  \<open>{clientContent: {turns: [{role, parts: [{text}]}], turnComplete}}\<close> given by its role,
  text and \<open>turnComplete\<close>, or a realtime media blob.
\<close>

datatype 'b outbound = ClientContent string string bool | RealtimeInput 'b

definition start_turn :: "'b outbound" where
  "start_turn = ClientContent ''user''
     ''The show is starting. Introduce yourself and ask the first question now.'' True"

text \<open>
  The component's state as far as capture goes. \<open>micActive\<close> is the React state of the
  current render and \<open>micActiveRef\<close> the ref the second effect keeps equal to it.
  \<open>closure_micActive\<close> is the \<open>micActive\<close> that the callbacks created by \<open>initSession\<close>
  close over: the value of the render whose effect ran (the effect's dependencies are
  topic, difficulty and personality, so a later render does not run it again).
  \<open>analysed\<close> lists the frames that went through \<open>inputAnalyser\<close>, which sits between the
  microphone source and the processor.
\<close>

record ('f, 'b) live_session =
  micActive :: bool
  micActiveRef :: bool
  closure_micActive :: bool
  connected :: bool
  onaudioprocess_set :: bool
  sent :: "'b outbound list"
  analysed :: "'f list"

text \<open>\<open>initSession\<close>, run by the effect: its callbacks capture the render's \<open>micActive\<close>.\<close>

definition initSession :: "('f, 'b) live_session \<Rightarrow> ('f, 'b) live_session" where
  "initSession s = s\<lparr>closure_micActive := micActive s\<rparr>"

text \<open>The first render (\<open>useState(true)\<close>, \<open>useRef(micActive)\<close>) followed by its effect.\<close>

definition mount :: "('f, 'b) live_session" where
  "mount = initSession
     \<lparr>micActive = True, micActiveRef = True, closure_micActive = True, connected = False,
      onaudioprocess_set = False, sent = [], analysed = []\<rparr>"

text \<open>
  The mute button: \<open>setMicActive(!micActive)\<close>, then the effect
  \<open>micActiveRef.current = micActive\<close> of the new render.
\<close>

definition toggleMic :: "('f, 'b) live_session \<Rightarrow> ('f, 'b) live_session" where
  "toggleMic s = s\<lparr>micActive := \<not> micActive s, micActiveRef := \<not> micActive s\<rparr>"

text \<open>
  \<open>onopen\<close> (lines 314 to 343): mark connected, send the start turn, install the capture
  callback.
\<close>

definition onopen :: "('f, 'b) live_session \<Rightarrow> ('f, 'b) live_session" where
  "onopen s = s\<lparr>connected := True, sent := sent s @ [start_turn], onaudioprocess_set := True\<rparr>"

text \<open>
  \<open>processor.onaudioprocess\<close> (lines 333 to 342). \<open>createPcmBlob\<close> (services/audioUtils,
  absent from the sources) is a parameter.
\<close>

definition onaudioprocess ::
  "('f \<Rightarrow> 'b) \<Rightarrow> 'f \<Rightarrow> ('f, 'b) live_session \<Rightarrow> ('f, 'b) live_session" where
  "onaudioprocess createPcmBlob frame s =
     (if \<not> closure_micActive s then s
      else s\<lparr>sent := sent s @ [RealtimeInput (createPcmBlob frame)]\<rparr>)"

text \<open>
  A capture frame travels the graph built in initSession, source to \<open>inputAnalyser\<close> to
  processor: the analyser sees it, then the processor's callback runs if one is installed.
\<close>

definition capture_frame ::
  "('f \<Rightarrow> 'b) \<Rightarrow> 'f \<Rightarrow> ('f, 'b) live_session \<Rightarrow> ('f, 'b) live_session" where
  "capture_frame createPcmBlob frame s =
     (let s1 = s\<lparr>analysed := analysed s @ [frame]\<rparr>
      in if onaudioprocess_set s1 then onaudioprocess createPcmBlob frame s1 else s1)"

datatype 'f capture_event = Open | ToggleMic | Frame 'f

fun capture_step ::
  "('f \<Rightarrow> 'b) \<Rightarrow> ('f, 'b) live_session \<Rightarrow> 'f capture_event \<Rightarrow> ('f, 'b) live_session" where
  "capture_step createPcmBlob s Open = onopen s"
| "capture_step createPcmBlob s ToggleMic = toggleMic s"
| "capture_step createPcmBlob s (Frame f) = capture_frame createPcmBlob f s"

definition capture_run ::
  "('f \<Rightarrow> 'b) \<Rightarrow> ('f, 'b) live_session \<Rightarrow> 'f capture_event list \<Rightarrow> ('f, 'b) live_session" where
  "capture_run createPcmBlob s evs = foldl (capture_step createPcmBlob) s evs"



section \<open>Visual quiz: score and leaderboard (VisualTrivia)\<close>

record Question =
  question :: string
  options :: "string list"
  correctAnswer :: string
  explanation :: string

text \<open>
  The component's state (its \<open>useState\<close> values) as far as the score goes; scores are
  JavaScript numbers that only ever hold integers, modelled as \<open>int\<close>.
\<close>

record quiz =
  q_data :: "Question list option"
  q_currentIndex :: nat
  q_selectedOption :: "string option"
  q_isAnswered :: bool
  q_score :: int
  q_gameOver :: bool
  q_playerName :: string

definition initial_quiz :: quiz where
  "initial_quiz =
     \<lparr>q_data = None, q_currentIndex = 0, q_selectedOption = None, q_isAnswered = False,
      q_score = 0, q_gameOver = False, q_playerName = []\<rparr>"

text \<open>
  \<open>handleAnswer\<close> (lines 178 to 197). When \<open>data.questions[currentIndex]\<close> is
  \<open>undefined\<close>, reading its \<open>correctAnswer\<close> throws after the first two state updates
  and before any update of the score.
\<close>

definition handleAnswer :: "string \<Rightarrow> quiz \<Rightarrow> quiz" where
  "handleAnswer option st =
     (if q_isAnswered st then st
      else case q_data st of
        None \<Rightarrow> st
      | Some qs \<Rightarrow>
          (let st1 = st\<lparr>q_selectedOption := Some option, q_isAnswered := True\<rparr>
           in if q_currentIndex st < length qs
              then (if option = correctAnswer (qs ! q_currentIndex st)
                    then st1\<lparr>q_score := q_score st1 + 100\<rparr>
                    else st1\<lparr>q_score := max 0 (q_score st1 - 20)\<rparr>)
              else st1))"

text \<open>\<open>nextQuestion\<close> (lines 199 to 211); \<open>currentIndex < length - 1\<close> over the integers.\<close>

definition nextQuestion :: "quiz \<Rightarrow> quiz" where
  "nextQuestion st =
     (case q_data st of
        None \<Rightarrow> st
      | Some qs \<Rightarrow>
          if int (q_currentIndex st) < int (length qs) - 1
          then st\<lparr>q_currentIndex := q_currentIndex st + 1, q_selectedOption := None,
                 q_isAnswered := False\<rparr>
          else st\<lparr>q_gameOver := True\<rparr>)"

text \<open>
  What changes the state above: the questions arrive (\<open>setData\<close>), an option is
  clicked, the next-question button is clicked, the name field is edited. \<open>setScore\<close>
  occurs in \<open>handleAnswer\<close> only.
\<close>

datatype quiz_action = Loaded "Question list" | Answer string | Next | SetName string

fun quiz_step :: "quiz \<Rightarrow> quiz_action \<Rightarrow> quiz" where
  "quiz_step st (Loaded qs) = st\<lparr>q_data := Some qs\<rparr>"
| "quiz_step st (Answer option) = handleAnswer option st"
| "quiz_step st Next = nextQuestion st"
| "quiz_step st (SetName n) = st\<lparr>q_playerName := n\<rparr>"

definition quiz_run :: "quiz \<Rightarrow> quiz_action list \<Rightarrow> quiz" where
  "quiz_run st acts = foldl quiz_step st acts"

text \<open>An answer that \<open>handleAnswer\<close> takes: none given yet, and a current question.\<close>

definition accepted :: "quiz \<Rightarrow> bool" where
  "accepted st =
     (\<not> q_isAnswered st \<and>
      (case q_data st of None \<Rightarrow> False | Some qs \<Rightarrow> q_currentIndex st < length qs))"

definition current_answer :: "quiz \<Rightarrow> string" where
  "current_answer st = correctAnswer (the (q_data st) ! q_currentIndex st)"

subsection \<open>Leaderboard\<close>

record LeaderboardEntry =
  name :: string
  score :: int
  topic :: string
  difficulty :: string
  date :: string

text \<open>
  \<open>String.prototype.trim\<close> on a byte string, for the six ASCII white-space characters.
  The platform's \<open>trim\<close> strips further characters (U+00A0 and other Unicode spaces), so
  a name that is blank for the code may not be blank here: the names saved by the code
  are among those saved by the model.
\<close>

definition is_space :: "char \<Rightarrow> bool" where
  "is_space c = (c \<in> set [CHR '' '', CHR 0x09, CHR 0x0A, CHR 0x0B, CHR 0x0C, CHR 0x0D])"

definition trim :: "string \<Rightarrow> string" where
  "trim s = rev (dropWhile is_space (rev (dropWhile is_space s)))"

text \<open>
  \<open>Array.prototype.sort(compare)\<close>: a stable sort, \<open>a\<close> before \<open>b\<close> when
  \<open>compare(a, b) < 0\<close>. As a stable insertion sort: elements are inserted from the last
  to the first, each in front of the first element it does not have to follow.
\<close>

fun insert_by :: "('a \<Rightarrow> 'a \<Rightarrow> int) \<Rightarrow> 'a \<Rightarrow> 'a list \<Rightarrow> 'a list" where
  "insert_by compare x [] = [x]"
| "insert_by compare x (y # ys) =
     (if compare x y \<le> 0 then x # y # ys else y # insert_by compare x ys)"

definition sort_by :: "('a \<Rightarrow> 'a \<Rightarrow> int) \<Rightarrow> 'a list \<Rightarrow> 'a list" where
  "sort_by compare xs = foldr (insert_by compare) xs []"

text \<open>
  \<open>handleSaveScore\<close> (lines 213 to 228). \<open>stored\<close> is the value of the
  \<open>trivia_leaderboard\<close> key of localStorage (\<open>None\<close> when absent, read as \<open>[]\<close>), \<open>stamp\<close> is
  \<open>new Date().toISOString()\<close>; the result is the value of the key afterwards.
\<close>

definition handleSaveScore ::
  "string \<Rightarrow> int \<Rightarrow> string \<Rightarrow> string \<Rightarrow> string \<Rightarrow> LeaderboardEntry list option
     \<Rightarrow> LeaderboardEntry list option" where
  "handleSaveScore playerName sc tp df stamp stored =
     (if trim playerName = [] then stored
      else
        (let entry = \<lparr>name = playerName, score = sc, topic = tp, difficulty = df, date = stamp\<rparr>;
             existing = (case stored of None \<Rightarrow> [] | Some l \<Rightarrow> l);
             updated = take 50 (sort_by (\<lambda>a b. score b - score a) (existing @ [entry]))
         in Some updated))"

section \<open>Properties of the scheduler\<close>

subsection \<open>The handler by cases\<close>

lemma onmessage_cases:
  "snd (onmessage dec now m s) =
     (if truthy (inlineData m) \<and> audioContextRef s
      then (case dec (the (inlineData m)) of
              None \<Rightarrow> sync_timing now s
            | Some n \<Rightarrow> handle_interrupted m
                (schedule_source now \<lparr>sampleCount = n, sampleRate = 24000, numberOfChannels = 1\<rparr>
                   (sync_timing now s)))
      else handle_interrupted m s)"
  by (simp add: onmessage_def onmessage_begin_def onmessage_resume_def decodeAudioData_def
      split: option.splits)

lemma run_Cons: "run dec s (e # es) = run dec (step dec s e) es"
  by (simp add: run_def)

subsection \<open>Without interruption the started sources form a chain\<close>

lemma duration_nonneg: "0 \<le> duration b"
  by (simp add: duration_def)

lemma chain_append:
  "chain c xs c' \<Longrightarrow> chain c' ys c'' \<Longrightarrow> chain c (xs @ ys) c''"
proof (induction xs arbitrary: c)
  case Nil
  then show ?case by (cases ys) auto
next
  case (Cons x xs)
  then show ?case by simp
qed

lemma chain_lower: "chain c ns c' \<Longrightarrow> n \<in> set ns \<Longrightarrow> c \<le> startTime n"
proof (induction ns arbitrary: c)
  case Nil
  then show ?case by simp
next
  case (Cons m ms)
  have "startTime m \<le> startTime m + duration (buffer m)"
    using duration_nonneg [of "buffer m"] by simp
  with Cons show ?case by fastforce
qed

lemma chain_sorted: "chain c ns c' \<Longrightarrow> sorted (map startTime ns)"
proof (induction ns arbitrary: c)
  case Nil
  then show ?case by simp
next
  case (Cons m ms)
  have "startTime m \<le> startTime m + duration (buffer m)"
    using duration_nonneg [of "buffer m"] by simp
  with Cons show ?case by (fastforce dest: chain_lower)
qed

lemma chain_adjacent:
  "chain c ns c' \<Longrightarrow> Suc i < length ns \<Longrightarrow>
     startTime (ns ! i) + duration (buffer (ns ! i)) \<le> startTime (ns ! Suc i)"
proof (induction ns arbitrary: c i)
  case Nil
  then show ?case by simp
next
  case (Cons m ms)
  show ?case
  proof (cases i)
    case 0
    with Cons.prems show ?thesis by (cases ms) auto
  next
    case (Suc j)
    with Cons show ?thesis by auto
  qed
qed

lemma step_chain:
  "no_interruption e \<Longrightarrow>
     \<exists>new. started (step dec s e) = started s @ new
       \<and> chain (nextStartTimeRef s) (map snd new) (nextStartTimeRef (step dec s e))"
  by (cases e)
    (auto simp add: no_interruption_def onmessage_def onmessage_begin_def onmessage_resume_def
      handle_interrupted_def schedule_source_def sync_timing_def decodeAudioData_def onended_def
      Let_def split: option.splits)

lemma run_chain:
  "\<forall>e\<in>set evs. no_interruption e \<Longrightarrow>
     \<exists>new. started (run dec s evs) = started s @ new
       \<and> chain (nextStartTimeRef s) (map snd new) (nextStartTimeRef (run dec s evs))"
proof (induction evs arbitrary: s)
  case Nil
  then show ?case by (simp add: run_def)
next
  case (Cons e es)
  from Cons.prems have e: "no_interruption e" and es: "\<forall>e\<in>set es. no_interruption e"
    by simp_all
  from step_chain [OF e, of dec s] obtain n1 where
    n1: "started (step dec s e) = started s @ n1"
      "chain (nextStartTimeRef s) (map snd n1) (nextStartTimeRef (step dec s e))"
    by blast
  from Cons.IH [OF es, of "step dec s e"] obtain n2 where
    n2: "started (run dec (step dec s e) es) = started (step dec s e) @ n2"
      "chain (nextStartTimeRef (step dec s e)) (map snd n2)
         (nextStartTimeRef (run dec (step dec s e) es))"
    by blast
  from n1 n2 chain_append [OF n1(2) n2(2)] show ?case
    by (intro exI [of _ "n1 @ n2"]) (simp add: run_Cons)
qed

subsection \<open>Decodes that interleave still give a chain\<close>

lemma async_step_chain:
  assumes "quiet e" and "\<forall>m\<in>set (awaiting w). \<not> interrupted m"
  shows "\<exists>new. started (sched (async_step dec w e)) = started (sched w) @ new
           \<and> chain (nextStartTimeRef (sched w)) (map snd new)
                (nextStartTimeRef (sched (async_step dec w e)))
           \<and> (\<forall>m\<in>set (awaiting (async_step dec w e)). \<not> interrupted m)"
proof (cases e)
  case (Pair t ev)
  show ?thesis
  proof (cases ev)
    case (Arrive m)
    with Pair assms show ?thesis
      by (auto simp add: quiet_def onmessage_begin_def handle_interrupted_def sync_timing_def)
  next
    case (DecodeDone k)
    show ?thesis
    proof (cases "k < length (awaiting w)")
      case False
      with Pair DecodeDone show ?thesis using assms(2) by simp
    next
      case True
      with assms(2) have q: "\<not> interrupted (awaiting w ! k)" by simp
      have rest: "\<forall>m\<in>set (take k (awaiting w) @ drop (Suc k) (awaiting w)). \<not> interrupted m"
        using assms(2) by (auto dest: in_set_takeD in_set_dropD)
      from q have "\<exists>new. started (snd (onmessage_resume dec t (awaiting w ! k) (sched w)))
            = started (sched w) @ new
          \<and> chain (nextStartTimeRef (sched w)) (map snd new)
               (nextStartTimeRef (snd (onmessage_resume dec t (awaiting w ! k) (sched w))))"
        by (auto simp add: onmessage_resume_def decodeAudioData_def handle_interrupted_def
            schedule_source_def duration_nonneg Let_def split: option.splits)
      with True rest Pair DecodeDone show ?thesis by simp
    qed
  next
    case (SourceEnded i)
    with Pair assms(2) show ?thesis by (simp add: onended_def)
  qed
qed

lemma async_run_chain:
  "\<forall>e\<in>set evs. quiet e \<Longrightarrow> \<forall>m\<in>set (awaiting w). \<not> interrupted m \<Longrightarrow>
     \<exists>new. started (sched (async_run dec w evs)) = started (sched w) @ new
       \<and> chain (nextStartTimeRef (sched w)) (map snd new)
            (nextStartTimeRef (sched (async_run dec w evs)))"
proof (induction evs arbitrary: w)
  case Nil
  then show ?case by (simp add: async_run_def)
next
  case (Cons e es)
  from Cons.prems have e: "quiet e" and es: "\<forall>e\<in>set es. quiet e" by simp_all
  from async_step_chain [OF e Cons.prems(2), of dec] obtain n1 where
    n1: "started (sched (async_step dec w e)) = started (sched w) @ n1"
      "chain (nextStartTimeRef (sched w)) (map snd n1)
         (nextStartTimeRef (sched (async_step dec w e)))"
      "\<forall>m\<in>set (awaiting (async_step dec w e)). \<not> interrupted m"
    by blast
  from Cons.IH [OF es n1(3)] obtain n2 where
    n2: "started (sched (async_run dec (async_step dec w e) es))
           = started (sched (async_step dec w e)) @ n2"
      "chain (nextStartTimeRef (sched (async_step dec w e))) (map snd n2)
         (nextStartTimeRef (sched (async_run dec (async_step dec w e) es)))"
    by blast
  have r: "async_run dec w (e # es) = async_run dec (async_step dec w e) es"
    by (simp add: async_run_def)
  from n1 n2 chain_append [OF n1(2) n2(2)] show ?case
    by (intro exI [of _ "n1 @ n2"]) (simp add: r)
qed

lemma chain_facts:
  assumes "chain c (map snd new) c'"
  shows "sorted (map (startTime \<circ> snd) new)
         \<and> (\<forall>i. Suc i < length new \<longrightarrow>
               startTime (snd (new ! i)) + duration (buffer (snd (new ! i)))
                 \<le> startTime (snd (new ! Suc i)))
         \<and> (\<forall>x\<in>set new. c \<le> startTime (snd x))"
proof -
  have "sorted (map startTime (map snd new))"
    using chain_sorted [OF assms] .
  then have 1: "sorted (map (startTime \<circ> snd) new)" by simp
  have 2: "\<forall>i. Suc i < length new \<longrightarrow>
             startTime (snd (new ! i)) + duration (buffer (snd (new ! i)))
               \<le> startTime (snd (new ! Suc i))"
    using chain_adjacent [OF assms] by fastforce
  have 3: "\<forall>x\<in>set new. c \<le> startTime (snd x)"
    using chain_lower [OF assms] by auto
  from 1 2 3 show ?thesis by blast
qed

text \<open>
  C3. For every sequence of inbound events none of which carries an interruption
  (chunks of any durations, handled at any clocks, malformed ones and natural ends of
  sources among them), the sources started are started at non-decreasing times, each no
  earlier than the start of the one before it plus that one's duration, and none earlier
  than the cursor the sequence began with: no two of them overlap. This holds when each
  handler runs to its end before the next event, and also when decodes take time and
  finish in any order among the arrivals, the sources then taken in the order in which
  they are started.
\<close>

theorem scheduled_starts_never_overlap:
  assumes "\<forall>e\<in>set evs. no_interruption e" and "\<forall>e\<in>set aevs. quiet e"
  shows "(\<exists>new. started (run dec s evs) = started s @ new
            \<and> sorted (map (startTime \<circ> snd) new)
            \<and> (\<forall>i. Suc i < length new \<longrightarrow>
                  startTime (snd (new ! i)) + duration (buffer (snd (new ! i)))
                    \<le> startTime (snd (new ! Suc i)))
            \<and> (\<forall>x\<in>set new. nextStartTimeRef s \<le> startTime (snd x)))
         \<and> (\<exists>new. started (sched (async_run dec (idle_world s) aevs)) = started s @ new
            \<and> sorted (map (startTime \<circ> snd) new)
            \<and> (\<forall>i. Suc i < length new \<longrightarrow>
                  startTime (snd (new ! i)) + duration (buffer (snd (new ! i)))
                    \<le> startTime (snd (new ! Suc i)))
            \<and> (\<forall>x\<in>set new. nextStartTimeRef s \<le> startTime (snd x)))"
proof
  from run_chain [OF assms(1), of dec s] obtain new where
    new: "started (run dec s evs) = started s @ new"
      "chain (nextStartTimeRef s) (map snd new) (nextStartTimeRef (run dec s evs))"
    by blast
  from new(1) chain_facts [OF new(2)]
  show "\<exists>new. started (run dec s evs) = started s @ new
            \<and> sorted (map (startTime \<circ> snd) new)
            \<and> (\<forall>i. Suc i < length new \<longrightarrow>
                  startTime (snd (new ! i)) + duration (buffer (snd (new ! i)))
                    \<le> startTime (snd (new ! Suc i)))
            \<and> (\<forall>x\<in>set new. nextStartTimeRef s \<le> startTime (snd x))"
    by blast
next
  have idle: "\<forall>m\<in>set (awaiting (idle_world s)). \<not> interrupted m"
    by (simp add: idle_world_def)
  from async_run_chain [OF assms(2) idle, of dec] obtain new where
    new: "started (sched (async_run dec (idle_world s) aevs)) = started s @ new"
      "chain (nextStartTimeRef s) (map snd new)
         (nextStartTimeRef (sched (async_run dec (idle_world s) aevs)))"
    by (auto simp add: idle_world_def)
  from new(1) chain_facts [OF new(2)]
  show "\<exists>new. started (sched (async_run dec (idle_world s) aevs)) = started s @ new
            \<and> sorted (map (startTime \<circ> snd) new)
            \<and> (\<forall>i. Suc i < length new \<longrightarrow>
                  startTime (snd (new ! i)) + duration (buffer (snd (new ! i)))
                    \<le> startTime (snd (new ! Suc i)))
            \<and> (\<forall>x\<in>set new. nextStartTimeRef s \<le> startTime (snd x))"
    by blast
qed

text \<open>
  Scenario A of the spec: three chunks of 0.5 s (12000 frames at 24 kHz) arrive back to
  back at clock 2; they start at 2, 2.5 and 3. And two chunks that arrive at clocks 2 and
  3, the second decoded first (at 4, the first at 5): they start at 3 and 3.5.
\<close>

theorem scheduled_starts_never_overlap_witness:
  "list_all no_interruption
     [Message 2 \<lparr>inlineData = Some ''a'', interrupted = False\<rparr>,
      Message 2 \<lparr>inlineData = Some ''b'', interrupted = False\<rparr>,
      Message 2 \<lparr>inlineData = Some ''c'', interrupted = False\<rparr>]
   \<and> list_all quiet
     [(2, Arrive \<lparr>inlineData = Some ''a'', interrupted = False\<rparr>),
      (3, Arrive \<lparr>inlineData = Some ''b'', interrupted = False\<rparr>),
      (4, DecodeDone 1), (5, DecodeDone 0)]
   \<and> map (startTime \<circ> snd) (started (run (\<lambda>p. Some 12000) initial_scheduler
        [Message 2 \<lparr>inlineData = Some ''a'', interrupted = False\<rparr>,
         Message 2 \<lparr>inlineData = Some ''b'', interrupted = False\<rparr>,
         Message 2 \<lparr>inlineData = Some ''c'', interrupted = False\<rparr>])) = [2, 5/2, 3]
   \<and> sorted (map (startTime \<circ> snd) (started (run (\<lambda>p. Some 12000) initial_scheduler
        [Message 2 \<lparr>inlineData = Some ''a'', interrupted = False\<rparr>,
         Message 2 \<lparr>inlineData = Some ''b'', interrupted = False\<rparr>,
         Message 2 \<lparr>inlineData = Some ''c'', interrupted = False\<rparr>])))
   \<and> map (startTime \<circ> snd) (started (sched (async_run (\<lambda>p. Some 12000)
        (idle_world initial_scheduler)
        [(2, Arrive \<lparr>inlineData = Some ''a'', interrupted = False\<rparr>),
         (3, Arrive \<lparr>inlineData = Some ''b'', interrupted = False\<rparr>),
         (4, DecodeDone 1), (5, DecodeDone 0)]))) = [3, 7/2]"
proof -
  let ?evs = "[Message 2 \<lparr>inlineData = Some ''a'', interrupted = False\<rparr>,
      Message 2 \<lparr>inlineData = Some ''b'', interrupted = False\<rparr>,
      Message 2 \<lparr>inlineData = Some ''c'', interrupted = False\<rparr>]"
  let ?aevs = "[(2, Arrive \<lparr>inlineData = Some ''a'', interrupted = False\<rparr>),
      (3, Arrive \<lparr>inlineData = Some ''b'', interrupted = False\<rparr>),
      (4, DecodeDone 1), (5::rat, DecodeDone 0)]"
  have h: "\<forall>e\<in>set ?evs. no_interruption e"
    by (simp add: no_interruption_def)
  have q: "\<forall>e\<in>set ?aevs. quiet e"
    by (simp add: quiet_def)
  from scheduled_starts_never_overlap [OF h q, of "\<lambda>p. Some 12000" initial_scheduler]
  have s: "sorted (map (startTime \<circ> snd) (started (run (\<lambda>p. Some 12000) initial_scheduler ?evs)))"
    by (auto simp add: initial_scheduler_def)
  have v: "map (startTime \<circ> snd) (started (run (\<lambda>p. Some 12000) initial_scheduler ?evs))
      = [2, 5/2, 3]"
    by (simp add: run_def onmessage_cases truthy_def initial_scheduler_def sync_timing_def
        schedule_source_def handle_interrupted_def duration_def Let_def)
  have a: "map (startTime \<circ> snd) (started (sched (async_run (\<lambda>p. Some 12000)
        (idle_world initial_scheduler) ?aevs))) = [3, 7/2]"
    by (simp add: async_run_def idle_world_def onmessage_begin_def onmessage_resume_def
        decodeAudioData_def truthy_def initial_scheduler_def sync_timing_def
        schedule_source_def handle_interrupted_def duration_def Let_def)
  from h q s v a show ?thesis by (simp add: list_all_iff)
qed

subsection \<open>Schedulers that differ in the cursor only\<close>

lemma max_absorb: "t \<le> now \<Longrightarrow> max c1 t = max c2 t \<Longrightarrow> max c1 now = max c2 (now::rat)"
  by (simp add: max_def split: if_splits)

lemma sync_timing_same:
  "same_but_cursor t s1 s2 \<Longrightarrow> t \<le> now \<Longrightarrow>
     same_but_cursor t (sync_timing now s1) (sync_timing now s2)
     \<and> nextStartTimeRef (sync_timing now s1) = nextStartTimeRef (sync_timing now s2)"
  using max_absorb [of t now "nextStartTimeRef s1" "nextStartTimeRef s2"]
  by (simp add: same_but_cursor_def sync_timing_def)

lemma schedule_source_same:
  "same_but_cursor t s1 s2 \<Longrightarrow> nextStartTimeRef s1 = nextStartTimeRef s2 \<Longrightarrow>
     same_but_cursor t (schedule_source now b s1) (schedule_source now b s2)"
  by (simp add: same_but_cursor_def schedule_source_def Let_def)

lemma handle_interrupted_same:
  "same_but_cursor t s1 s2 \<Longrightarrow>
     same_but_cursor t (handle_interrupted m s1) (handle_interrupted m s2)"
  by (simp add: same_but_cursor_def handle_interrupted_def)

subsection \<open>The handler that runs in one step\<close>

text \<open>
  The handler that nothing interleaves with is the suspended handler resumed at once.
\<close>

lemma async_atomic:
  "truthy (inlineData msg) \<and> audioContextRef s \<Longrightarrow>
     sched (async_run dec (idle_world s) [(t, Arrive msg), (t, DecodeDone 0)])
       = snd (onmessage dec t msg s)"
  by (simp add: async_run_def idle_world_def onmessage_def onmessage_begin_def)

lemma async_atomic_no_audio:
  "\<not> (truthy (inlineData msg) \<and> audioContextRef s) \<Longrightarrow>
     sched (async_run dec (idle_world s) [(t, Arrive msg)]) = snd (onmessage dec t msg s)"
  by (auto simp add: async_run_def idle_world_def onmessage_def onmessage_begin_def)

subsection \<open>The two halves of the handler, in any world\<close>

lemma async_run_Cons: "async_run dec w (e # es) = async_run dec (async_step dec w e) es"
  by (simp add: async_run_def)


lemma arrive_audio:
  "truthy (inlineData m) \<Longrightarrow> audioContextRef (sched w) \<Longrightarrow>
     async_step dec w (t, Arrive m)
       = w\<lparr>sched := sync_timing t (sched w), awaiting := awaiting w @ [m]\<rparr>"
  by (simp add: onmessage_begin_def)

lemma arrive_no_audio:
  "\<not> (truthy (inlineData m) \<and> audioContextRef (sched w)) \<Longrightarrow>
     async_step dec w (t, Arrive m) = w\<lparr>sched := handle_interrupted m (sched w)\<rparr>"
  by (auto simp add: onmessage_begin_def)

lemma decode_done_ok:
  "k < length (awaiting w) \<Longrightarrow> dec (the (inlineData (awaiting w ! k))) = Some n \<Longrightarrow>
     async_step dec w (t, DecodeDone k)
       = w\<lparr>sched := handle_interrupted (awaiting w ! k)
              (schedule_source t \<lparr>sampleCount = n, sampleRate = 24000, numberOfChannels = 1\<rparr>
                 (sched w)),
            awaiting := take k (awaiting w) @ drop (Suc k) (awaiting w)\<rparr>"
  by (simp add: onmessage_resume_def decodeAudioData_def)

lemma decode_done_fail:
  "k < length (awaiting w) \<Longrightarrow> dec (the (inlineData (awaiting w ! k))) = None \<Longrightarrow>
     async_step dec w (t, DecodeDone k)
       = w\<lparr>awaiting := take k (awaiting w) @ drop (Suc k) (awaiting w)\<rparr>"
  by (simp add: onmessage_resume_def decodeAudioData_def)

lemma decode_done_none:
  "\<not> k < length (awaiting w) \<Longrightarrow> async_step dec w (t, DecodeDone k) = w"
  by simp

lemma source_ended: "async_step dec w (t, SourceEnded i) = w\<lparr>sched := onended i (sched w)\<rparr>"
  by simp



declare async_step.simps [simp del]




subsection \<open>Events that start nothing leave the cursor behind the clock\<close>










subsection \<open>When the clock is read, and what a reset cursor leaves of the old one\<close>

lemma same_but_log_step:
  assumes "same_but_log w1 w2"
  shows "same_but_log (async_step dec w1 e) (async_step dec w2 e)
         \<and> (\<exists>new. started (sched (async_step dec w1 e)) = started (sched w1) @ new
                \<and> started (sched (async_step dec w2 e)) = started (sched w2) @ new)"
proof -
  from assms have aw: "awaiting w1 = awaiting w2"
    and ctx: "audioContextRef (sched w1) = audioContextRef (sched w2)"
    and rest: "nextStartTimeRef (sched w1) = nextStartTimeRef (sched w2)"
      "sourcesRef (sched w1) = sourcesRef (sched w2)"
      "stopped (sched w1) = stopped (sched w2)" "created (sched w1) = created (sched w2)"
    by (simp_all add: same_but_log_def)
  obtain t ev where e: "e = (t, ev)" by (cases e)
  show ?thesis
  proof (cases ev)
    case (Arrive m)
    show ?thesis
    proof (cases "truthy (inlineData m) \<and> audioContextRef (sched w1)")
      case True
      with ctx have "truthy (inlineData m)" "audioContextRef (sched w1)"
        "audioContextRef (sched w2)" by simp_all
      then have "async_step dec w1 e
            = w1\<lparr>sched := sync_timing t (sched w1), awaiting := awaiting w1 @ [m]\<rparr>"
        and "async_step dec w2 e
            = w2\<lparr>sched := sync_timing t (sched w2), awaiting := awaiting w2 @ [m]\<rparr>"
        unfolding e Arrive by (simp_all add: arrive_audio)
      with aw ctx rest show ?thesis
        by (simp add: same_but_log_def sync_timing_def)
    next
      case False
      with ctx have "\<not> (truthy (inlineData m) \<and> audioContextRef (sched w1))"
        "\<not> (truthy (inlineData m) \<and> audioContextRef (sched w2))" by simp_all
      then have "async_step dec w1 e = w1\<lparr>sched := handle_interrupted m (sched w1)\<rparr>"
        and "async_step dec w2 e = w2\<lparr>sched := handle_interrupted m (sched w2)\<rparr>"
        unfolding e Arrive by (simp_all add: arrive_no_audio)
      with aw ctx rest show ?thesis
        by (simp add: same_but_log_def handle_interrupted_def)
    qed
  next
    case (DecodeDone k)
    show ?thesis
    proof (cases "k < length (awaiting w1)")
      case False
      with aw have "async_step dec w1 e = w1" and "async_step dec w2 e = w2"
        unfolding e DecodeDone by (simp_all add: decode_done_none)
      with assms show ?thesis by simp
    next
      case True
      with aw have k: "k < length (awaiting w1)" "k < length (awaiting w2)" by simp_all
      show ?thesis
      proof (cases "dec (the (inlineData (awaiting w1 ! k)))")
        case None
        with aw have d: "dec (the (inlineData (awaiting w1 ! k))) = None"
          "dec (the (inlineData (awaiting w2 ! k))) = None" by simp_all
        have "async_step dec w1 e
              = w1\<lparr>awaiting := take k (awaiting w1) @ drop (Suc k) (awaiting w1)\<rparr>"
          and "async_step dec w2 e
              = w2\<lparr>awaiting := take k (awaiting w2) @ drop (Suc k) (awaiting w2)\<rparr>"
          unfolding e DecodeDone
          using k d by (simp_all add: decode_done_fail)
        with aw ctx rest show ?thesis by (simp add: same_but_log_def)
      next
        case (Some n)
        with aw have d: "dec (the (inlineData (awaiting w1 ! k))) = Some n"
          "dec (the (inlineData (awaiting w2 ! k))) = Some n" by simp_all
        let ?b = "\<lparr>sampleCount = n, sampleRate = 24000, numberOfChannels = 1\<rparr>"
        have "async_step dec w1 e
              = w1\<lparr>sched := handle_interrupted (awaiting w1 ! k)
                       (schedule_source t ?b (sched w1)),
                    awaiting := take k (awaiting w1) @ drop (Suc k) (awaiting w1)\<rparr>"
          and "async_step dec w2 e
              = w2\<lparr>sched := handle_interrupted (awaiting w2 ! k)
                       (schedule_source t ?b (sched w2)),
                    awaiting := take k (awaiting w2) @ drop (Suc k) (awaiting w2)\<rparr>"
          unfolding e DecodeDone
          using decode_done_ok [of k w1 dec n t, OF k(1) d(1)]
            decode_done_ok [of k w2 dec n t, OF k(2) d(2)] by simp_all
        with aw ctx rest show ?thesis
          by (simp add: same_but_log_def handle_interrupted_def schedule_source_def Let_def)
      qed
    qed
  next
    case (SourceEnded i)
    with aw ctx rest show ?thesis
      unfolding e by (simp add: same_but_log_def source_ended onended_def)
  qed
qed

lemma same_but_log_run:
  "same_but_log w1 w2 \<Longrightarrow>
     same_but_log (async_run dec w1 evs) (async_run dec w2 evs)
     \<and> (\<exists>new. started (sched (async_run dec w1 evs)) = started (sched w1) @ new
            \<and> started (sched (async_run dec w2 evs)) = started (sched w2) @ new)"
proof (induction evs arbitrary: w1 w2)
  case Nil
  then show ?case by (simp add: async_run_def)
next
  case (Cons e es)
  from same_but_log_step [OF Cons.prems, of dec e] obtain n1 where
    s: "same_but_log (async_step dec w1 e) (async_step dec w2 e)"
    and n1: "started (sched (async_step dec w1 e)) = started (sched w1) @ n1"
      "started (sched (async_step dec w2 e)) = started (sched w2) @ n1"
    by blast
  from Cons.IH [OF s] obtain n2 where
    r: "same_but_log (async_run dec (async_step dec w1 e) es)
          (async_run dec (async_step dec w2 e) es)"
    and n2: "started (sched (async_run dec (async_step dec w1 e) es))
          = started (sched (async_step dec w1 e)) @ n2"
      "started (sched (async_run dec (async_step dec w2 e) es))
          = started (sched (async_step dec w2 e)) @ n2"
    by blast
  from r n1 n2 show ?case
    by (intro conjI exI [of _ "n1 @ n2"]) (simp_all add: async_run_Cons)
qed

lemma decode_done_reads_no_clock:
  "awaiting (async_step dec w (t, DecodeDone k)) = awaiting (async_step dec w (t', DecodeDone k))
   \<and> (sched (async_step dec w (t, DecodeDone k)))\<lparr>started := []\<rparr>
       = (sched (async_step dec w (t', DecodeDone k)))\<lparr>started := []\<rparr>
   \<and> map snd (started (sched (async_step dec w (t, DecodeDone k))))
       = map snd (started (sched (async_step dec w (t', DecodeDone k))))"
proof (cases "k < length (awaiting w)")
  case False
  then show ?thesis by (simp add: decode_done_none)
next
  case True
  show ?thesis
  proof (cases "dec (the (inlineData (awaiting w ! k)))")
    case None
    with True show ?thesis by (simp add: decode_done_fail)
  next
    case (Some n)
    from decode_done_ok [of k w dec n t, OF True Some]
      decode_done_ok [of k w dec n t', OF True Some]
    show ?thesis
      by (simp add: handle_interrupted_def schedule_source_def Let_def)
  qed
qed

lemma reset_forgets_cursor:
  assumes "interrupted intr" and "k < length (awaiting w)" and "awaiting w ! k = intr"
    and "dec (the (inlineData intr)) = Some n"
  shows "same_but_log
           (async_step dec (w\<lparr>sched := (sched w)\<lparr>nextStartTimeRef := c\<rparr>\<rparr>) (t, DecodeDone k))
           (async_step dec w (t, DecodeDone k))
         \<and> length (started (sched (async_step dec
               (w\<lparr>sched := (sched w)\<lparr>nextStartTimeRef := c\<rparr>\<rparr>) (t, DecodeDone k))))
             = Suc (length (started (sched w)))
         \<and> length (started (sched (async_step dec w (t, DecodeDone k))))
             = Suc (length (started (sched w)))"
proof -
  let ?wc = "w\<lparr>sched := (sched w)\<lparr>nextStartTimeRef := c\<rparr>\<rparr>"
  have k: "k < length (awaiting ?wc)"
    and d: "dec (the (inlineData (awaiting ?wc ! k))) = Some n"
    and d': "dec (the (inlineData (awaiting w ! k))) = Some n"
    using assms by simp_all
  from decode_done_ok [of k ?wc dec n t, OF k d] decode_done_ok [of k w dec n t, OF assms(2) d']
    assms(1) assms(3)
  show ?thesis
    by (simp add: same_but_log_def handle_interrupted_def schedule_source_def Let_def)
qed

text \<open>
  C5, as the code has it. For every inbound chunk, in any state of the pipeline, the
  clock is read when the chunk arrives, before its decode is awaited: the cursor is
  raised to \<open>max(cursor, now)\<close> and the handler is suspended. When a decode completes no
  clock is read: but for the stamp in the log, the state it leaves is the same whenever
  it completes. Once an interruption has been processed (at the arrival of a message
  that has no audio to decode, or at the completion of the decode of a message that has),
  the cursor from before the reset plays no part any more: whatever events follow,
  every source started afterwards, of a chunk whose decode was pending during the
  interruption or of one that arrives later, is started at the same time, and the live
  set, the sources stopped and the cursor are the same, whatever that cursor was.
\<close>

theorem clock_read_on_arrival_only:
  "(truthy (inlineData chunk) \<and> audioContextRef (sched w) \<longrightarrow>
      async_step dec w (now, Arrive chunk)
        = w\<lparr>sched := (sched w)\<lparr>nextStartTimeRef := max (nextStartTimeRef (sched w)) now\<rparr>,
             awaiting := awaiting w @ [chunk]\<rparr>)
   \<and> awaiting (async_step dec w (t, DecodeDone k)) = awaiting (async_step dec w (t', DecodeDone k))
   \<and> (sched (async_step dec w (t, DecodeDone k)))\<lparr>started := []\<rparr>
       = (sched (async_step dec w (t', DecodeDone k)))\<lparr>started := []\<rparr>
   \<and> map snd (started (sched (async_step dec w (t, DecodeDone k))))
       = map snd (started (sched (async_step dec w (t', DecodeDone k))))
   \<and> (interrupted intr \<and> \<not> (truthy (inlineData intr) \<and> audioContextRef (sched w)) \<longrightarrow>
        (\<forall>c evs. async_run dec (w\<lparr>sched := (sched w)\<lparr>nextStartTimeRef := c\<rparr>\<rparr>)
                     ((t, Arrive intr) # evs)
                  = async_run dec w ((t, Arrive intr) # evs)))
   \<and> (interrupted intr \<and> k < length (awaiting w) \<and> awaiting w ! k = intr
        \<and> dec (the (inlineData intr)) = Some n \<longrightarrow>
        (\<forall>c evs.
           (let r1 = async_run dec (w\<lparr>sched := (sched w)\<lparr>nextStartTimeRef := c\<rparr>\<rparr>)
                       ((t, DecodeDone k) # evs);
                r2 = async_run dec w ((t, DecodeDone k) # evs)
            in drop (Suc (length (started (sched w)))) (started (sched r1))
                 = drop (Suc (length (started (sched w)))) (started (sched r2))
               \<and> awaiting r1 = awaiting r2
               \<and> nextStartTimeRef (sched r1) = nextStartTimeRef (sched r2)
               \<and> sourcesRef (sched r1) = sourcesRef (sched r2)
               \<and> stopped (sched r1) = stopped (sched r2)
               \<and> created (sched r1) = created (sched r2))))"
proof (intro conjI impI allI)
  assume "truthy (inlineData chunk) \<and> audioContextRef (sched w)"
  then show "async_step dec w (now, Arrive chunk)
      = w\<lparr>sched := (sched w)\<lparr>nextStartTimeRef := max (nextStartTimeRef (sched w)) now\<rparr>,
           awaiting := awaiting w @ [chunk]\<rparr>"
    by (simp add: arrive_audio sync_timing_def)
next
  show "awaiting (async_step dec w (t, DecodeDone k)) = awaiting (async_step dec w (t', DecodeDone k))"
    using decode_done_reads_no_clock [of dec w t k t'] by blast
next
  show "(sched (async_step dec w (t, DecodeDone k)))\<lparr>started := []\<rparr>
       = (sched (async_step dec w (t', DecodeDone k)))\<lparr>started := []\<rparr>"
    using decode_done_reads_no_clock [of dec w t k t'] by blast
next
  show "map snd (started (sched (async_step dec w (t, DecodeDone k))))
       = map snd (started (sched (async_step dec w (t', DecodeDone k))))"
    using decode_done_reads_no_clock [of dec w t k t'] by blast
next
  fix c evs
  assume a: "interrupted intr \<and> \<not> (truthy (inlineData intr) \<and> audioContextRef (sched w))"
  let ?wc = "w\<lparr>sched := (sched w)\<lparr>nextStartTimeRef := c\<rparr>\<rparr>"
  from a have "\<not> (truthy (inlineData intr) \<and> audioContextRef (sched ?wc))" by simp
  then have "async_step dec ?wc (t, Arrive intr)
      = ?wc\<lparr>sched := handle_interrupted intr (sched ?wc)\<rparr>"
    by (rule arrive_no_audio)
  moreover from a have "async_step dec w (t, Arrive intr)
      = w\<lparr>sched := handle_interrupted intr (sched w)\<rparr>"
    by (intro arrive_no_audio) simp
  ultimately have "async_step dec ?wc (t, Arrive intr) = async_step dec w (t, Arrive intr)"
    using a by (simp add: handle_interrupted_def)
  then show "async_run dec ?wc ((t, Arrive intr) # evs) = async_run dec w ((t, Arrive intr) # evs)"
    by (simp add: async_run_Cons)
next
  fix c evs
  assume a: "interrupted intr \<and> k < length (awaiting w) \<and> awaiting w ! k = intr
      \<and> dec (the (inlineData intr)) = Some n"
  let ?wc = "w\<lparr>sched := (sched w)\<lparr>nextStartTimeRef := c\<rparr>\<rparr>"
  let ?w1 = "async_step dec ?wc (t, DecodeDone k)"
  let ?w2 = "async_step dec w (t, DecodeDone k)"
  from a reset_forgets_cursor [of intr k w dec n c t]
  have s: "same_but_log ?w1 ?w2"
    and l: "length (started (sched ?w1)) = Suc (length (started (sched w)))"
      "length (started (sched ?w2)) = Suc (length (started (sched w)))"
    by simp_all
  from same_but_log_run [OF s, of dec evs] obtain new where
    r: "same_but_log (async_run dec ?w1 evs) (async_run dec ?w2 evs)"
    and n: "started (sched (async_run dec ?w1 evs)) = started (sched ?w1) @ new"
      "started (sched (async_run dec ?w2 evs)) = started (sched ?w2) @ new"
    by blast
  from n l have "drop (Suc (length (started (sched w)))) (started (sched (async_run dec ?w1 evs)))
      = drop (Suc (length (started (sched w)))) (started (sched (async_run dec ?w2 evs)))"
    by simp
  with r show "let r1 = async_run dec ?wc ((t, DecodeDone k) # evs);
          r2 = async_run dec w ((t, DecodeDone k) # evs)
      in drop (Suc (length (started (sched w)))) (started (sched r1))
           = drop (Suc (length (started (sched w)))) (started (sched r2))
         \<and> awaiting r1 = awaiting r2
         \<and> nextStartTimeRef (sched r1) = nextStartTimeRef (sched r2)
         \<and> sourcesRef (sched r1) = sourcesRef (sched r2)
         \<and> stopped (sched r1) = stopped (sched r2)
         \<and> created (sched r1) = created (sched r2)"
    by (simp add: Let_def async_run_Cons same_but_log_def)
qed

text \<open>
  Two chunks are being decoded when an interruption arrives at clock 3; the decodes
  complete at clocks 4 and 5, and a third chunk arrives at clock 6 and is decoded at
  clock 7. Whether the cursor was 9 or 0 before the interruption, the three sources are
  started at 0, 1/2 and 6.
\<close>

theorem clock_read_on_arrival_only_witness:
  "truthy (inlineData \<lparr>inlineData = Some ''ok'', interrupted = False\<rparr>)
   \<and> audioContextRef (sched (idle_world initial_scheduler))
   \<and> interrupted \<lparr>inlineData = None, interrupted = True\<rparr>
   \<and> \<not> (truthy (inlineData \<lparr>inlineData = None, interrupted = True\<rparr>)
        \<and> audioContextRef (sched \<lparr>sched = initial_scheduler,
             awaiting = [\<lparr>inlineData = Some ''ok'', interrupted = False\<rparr>,
                         \<lparr>inlineData = Some ''ok'', interrupted = False\<rparr>]\<rparr>))
   \<and> map (\<lambda>(t, n). (t, startTime n)) (started (sched (async_run (\<lambda>p. Some 12000)
        (\<lparr>sched = initial_scheduler,
           awaiting = [\<lparr>inlineData = Some ''ok'', interrupted = False\<rparr>,
                       \<lparr>inlineData = Some ''ok'', interrupted = False\<rparr>]\<rparr>
         \<lparr>sched := initial_scheduler\<lparr>nextStartTimeRef := 9\<rparr>\<rparr>)
        ((3, Arrive \<lparr>inlineData = None, interrupted = True\<rparr>)
         # [(4, DecodeDone 0), (5, DecodeDone 0),
            (6, Arrive \<lparr>inlineData = Some ''ok'', interrupted = False\<rparr>), (7, DecodeDone 0)]))))
      = [(4, 0), (5, 1/2), (7, 6)]"
proof -
  let ?chunk = "\<lparr>inlineData = Some ''ok'', interrupted = False\<rparr>"
  let ?intr = "\<lparr>inlineData = None, interrupted = True\<rparr>"
  let ?dec = "\<lambda>p::string. Some (12000::nat)"
  let ?w = "\<lparr>sched = initial_scheduler, awaiting = [?chunk, ?chunk]\<rparr>"
  let ?evs = "[(4, DecodeDone 0), (5, DecodeDone 0), (6, Arrive ?chunk), (7::rat, DecodeDone 0)]"
  have h: "truthy (inlineData ?chunk)" "audioContextRef (sched (idle_world initial_scheduler))"
    "interrupted ?intr" "\<not> (truthy (inlineData ?intr) \<and> audioContextRef (sched ?w))"
    by (simp_all add: truthy_def idle_world_def initial_scheduler_def)
  from clock_read_on_arrival_only [of ?chunk ?w ?dec 0 3 0 3 ?intr 0] h(3) h(4)
  have "async_run ?dec (?w\<lparr>sched := (sched ?w)\<lparr>nextStartTimeRef := 9\<rparr>\<rparr>) ((3, Arrive ?intr) # ?evs)
      = async_run ?dec ?w ((3, Arrive ?intr) # ?evs)"
    by blast
  moreover have "map (\<lambda>(t, n). (t, startTime n))
      (started (sched (async_run ?dec ?w ((3, Arrive ?intr) # ?evs)))) = [(4, 0), (5, 1/2), (7, 6)]"
    by (simp add: async_run_def async_step.simps initial_scheduler_def onmessage_begin_def
        onmessage_resume_def decodeAudioData_def truthy_def sync_timing_def schedule_source_def
        handle_interrupted_def duration_def Let_def)
  ultimately have "map (\<lambda>(t, n). (t, startTime n))
      (started (sched (async_run ?dec (?w\<lparr>sched := initial_scheduler\<lparr>nextStartTimeRef := 9\<rparr>\<rparr>)
         ((3, Arrive ?intr) # ?evs)))) = [(4, 0), (5, 1/2), (7, 6)]"
    by simp
  with h show ?thesis by blast
qed

text \<open>
  The claim as the spec states it fails: with the cursor at 0, a chunk arrives at clock 1
  and its decode completes at clock 2. Were the clock read after the decode, the source
  would be given \<open>max(0, 2) = 2\<close>; it is given 1, a time already past when \<open>start\<close> is
  called.
\<close>

theorem start_time_is_clock_before_decode:
  "map (\<lambda>(t, n). (t, startTime n)) (started (sched (async_run (\<lambda>p. Some 12000)
      (idle_world initial_scheduler)
      [(1, Arrive \<lparr>inlineData = Some ''ok'', interrupted = False\<rparr>), (2, DecodeDone 0)])))
     = [(2, 1)]
   \<and> (1::rat) \<noteq> max (nextStartTimeRef initial_scheduler) 2"
  by (simp add: async_run_def async_step.simps idle_world_def onmessage_begin_def onmessage_resume_def
      decodeAudioData_def handle_interrupted_def schedule_source_def sync_timing_def Let_def
      truthy_def initial_scheduler_def)

subsection \<open>A malformed chunk that arrives when no decode is pending\<close>

lemma onended_same:
  "same_but_cursor t s1 s2 \<Longrightarrow> same_but_cursor t (onended i s1) (onended i s2)
     \<and> nextStartTimeRef (onended i s1) = nextStartTimeRef s1
     \<and> nextStartTimeRef (onended i s2) = nextStartTimeRef s2"
  by (simp add: same_but_cursor_def onended_def)

lemma handle_interrupted_cursor:
  "nextStartTimeRef s1 = nextStartTimeRef s2 \<or> interrupted m \<Longrightarrow>
     nextStartTimeRef (handle_interrupted m s1) = nextStartTimeRef (handle_interrupted m s2)"
  by (auto simp add: handle_interrupted_def)

lemma schedule_source_cursor:
  "nextStartTimeRef s1 = nextStartTimeRef s2 \<Longrightarrow>
     nextStartTimeRef (schedule_source t b s1) = nextStartTimeRef (schedule_source t b s2)"
  by (simp add: schedule_source_def Let_def)

text \<open>
  One event handled in two worlds that are in step, the second of which has the same
  suspended handlers as the first (\<open>pre = []\<close>) or all of them but the oldest, a message
  \<open>bad\<close> ahead of them (\<open>pre = [bad]\<close>).
\<close>

lemma in_step_arrive:
  assumes "in_step t w1 w2" and "awaiting w1 = pre @ awaiting w2" and "t \<le> t'"
  shows "in_step t (async_step dec w1 (t', Arrive m)) (async_step dec w2 (t', Arrive m))
         \<and> awaiting (async_step dec w1 (t', Arrive m))
             = pre @ awaiting (async_step dec w2 (t', Arrive m))"
proof -
  from assms(1) have sbc: "same_but_cursor t (sched w1) (sched w2)"
    and cur: "nextStartTimeRef (sched w1) = nextStartTimeRef (sched w2) \<or> awaiting w2 = []"
    by (simp_all add: in_step_def)
  from sbc have ctx: "audioContextRef (sched w1) = audioContextRef (sched w2)"
    by (simp add: same_but_cursor_def)
  show ?thesis
  proof (cases "truthy (inlineData m) \<and> audioContextRef (sched w1)")
    case True
    with ctx have "truthy (inlineData m)" "audioContextRef (sched w1)"
      "audioContextRef (sched w2)" by simp_all
    then have 1: "async_step dec w1 (t', Arrive m)
          = w1\<lparr>sched := sync_timing t' (sched w1), awaiting := awaiting w1 @ [m]\<rparr>"
      and 2: "async_step dec w2 (t', Arrive m)
          = w2\<lparr>sched := sync_timing t' (sched w2), awaiting := awaiting w2 @ [m]\<rparr>"
      by (simp_all add: arrive_audio)
    from sync_timing_same [OF sbc assms(3)] assms(2) show ?thesis
      by (simp add: 1 2 in_step_def)
  next
    case False
    with ctx have "\<not> (truthy (inlineData m) \<and> audioContextRef (sched w1))"
      "\<not> (truthy (inlineData m) \<and> audioContextRef (sched w2))" by simp_all
    then have 1: "async_step dec w1 (t', Arrive m) = w1\<lparr>sched := handle_interrupted m (sched w1)\<rparr>"
      and 2: "async_step dec w2 (t', Arrive m) = w2\<lparr>sched := handle_interrupted m (sched w2)\<rparr>"
      by (simp_all add: arrive_no_audio)
    show ?thesis
    proof (cases "interrupted m \<or> nextStartTimeRef (sched w1) = nextStartTimeRef (sched w2)")
      case True
      then have "nextStartTimeRef (handle_interrupted m (sched w1))
          = nextStartTimeRef (handle_interrupted m (sched w2))"
        by (intro handle_interrupted_cursor) blast
      with handle_interrupted_same [OF sbc, of m] assms(2) show ?thesis
        by (simp add: 1 2 in_step_def)
    next
      case False
      with cur have "awaiting w2 = []" by blast
      with handle_interrupted_same [OF sbc, of m] assms(2) show ?thesis
        by (simp add: 1 2 in_step_def)
    qed
  qed
qed

lemma in_step_ended:
  assumes "in_step t w1 w2" and "awaiting w1 = pre @ awaiting w2"
  shows "in_step t (async_step dec w1 (t', SourceEnded i)) (async_step dec w2 (t', SourceEnded i))
         \<and> awaiting (async_step dec w1 (t', SourceEnded i))
             = pre @ awaiting (async_step dec w2 (t', SourceEnded i))"
  using assms onended_same [of t "sched w1" "sched w2" i]
  by (simp add: in_step_def source_ended)

lemma in_step_done:
  assumes "in_step t w1 w2" and "awaiting w1 = pre @ awaiting w2"
  shows "in_step t (async_step dec w1 (t', DecodeDone (length pre + k)))
           (async_step dec w2 (t', DecodeDone k))
         \<and> awaiting (async_step dec w1 (t', DecodeDone (length pre + k)))
             = pre @ awaiting (async_step dec w2 (t', DecodeDone k))"
proof (cases "k < length (awaiting w2)")
  case False
  with assms(2) have "\<not> length pre + k < length (awaiting w1)" by simp
  with False assms show ?thesis by (simp add: decode_done_none)
next
  case True
  with assms(2) have k1: "length pre + k < length (awaiting w1)"
    and same: "awaiting w1 ! (length pre + k) = awaiting w2 ! k"
    by (simp_all add: nth_append)
  from True have "awaiting w2 \<noteq> []" by auto
  with assms(1) have sbc: "same_but_cursor t (sched w1) (sched w2)"
    and cur: "nextStartTimeRef (sched w1) = nextStartTimeRef (sched w2)"
    by (simp_all add: in_step_def)
  have rest: "take (length pre + k) (awaiting w1) @ drop (Suc (length pre + k)) (awaiting w1)
      = pre @ take k (awaiting w2) @ drop (Suc k) (awaiting w2)"
    using assms(2) by simp
  show ?thesis
  proof (cases "dec (the (inlineData (awaiting w2 ! k)))")
    case None
    with same have "dec (the (inlineData (awaiting w1 ! (length pre + k)))) = None" by simp
    from decode_done_fail [of "length pre + k" w1 dec t', OF k1 this]
      decode_done_fail [of k w2 dec t', OF True None]
      assms(1) cur rest
    show ?thesis by (simp add: in_step_def)
  next
    case (Some n)
    with same have d1: "dec (the (inlineData (awaiting w1 ! (length pre + k)))) = Some n"
      by simp
    let ?b = "\<lparr>sampleCount = n, sampleRate = 24000, numberOfChannels = 1\<rparr>"
    let ?m = "awaiting w2 ! k"
    have s: "same_but_cursor t (handle_interrupted ?m (schedule_source t' ?b (sched w1)))
        (handle_interrupted ?m (schedule_source t' ?b (sched w2)))"
      using schedule_source_same [OF sbc cur] by (intro handle_interrupted_same)
    have c: "nextStartTimeRef (handle_interrupted ?m (schedule_source t' ?b (sched w1)))
        = nextStartTimeRef (handle_interrupted ?m (schedule_source t' ?b (sched w2)))"
      using schedule_source_cursor [OF cur] by (intro handle_interrupted_cursor) blast
    from decode_done_ok [of "length pre + k" w1 dec n t', OF k1 d1]
      decode_done_ok [of k w2 dec n t', OF True Some] s c rest same
    show ?thesis by (simp add: in_step_def)
  qed
qed

lemma in_step_run:
  "in_step t w1 w2 \<Longrightarrow> awaiting w1 = awaiting w2 \<Longrightarrow> \<forall>e\<in>set evs. arrives_after t e \<Longrightarrow>
     in_step t (async_run dec w1 evs) (async_run dec w2 evs)"
proof (induction evs arbitrary: w1 w2)
  case Nil
  then show ?case by (simp add: async_run_def)
next
  case (Cons e es)
  obtain t' ev where e: "e = (t', ev)" by (cases e)
  from Cons.prems(2) have aw: "awaiting w1 = [] @ awaiting w2" by simp
  have "in_step t (async_step dec w1 e) (async_step dec w2 e)
      \<and> awaiting (async_step dec w1 e) = [] @ awaiting (async_step dec w2 e)"
  proof (cases ev)
    case (Arrive m)
    with e Cons.prems(3) have "t \<le> t'" by (simp add: arrives_after_def)
    from in_step_arrive [OF Cons.prems(1) aw this] e Arrive show ?thesis by simp
  next
    case (DecodeDone k)
    from in_step_done [OF Cons.prems(1) aw, of dec t' k] e DecodeDone show ?thesis by simp
  next
    case (SourceEnded i)
    from in_step_ended [OF Cons.prems(1) aw] e SourceEnded show ?thesis by simp
  qed
  with Cons.IH [of "async_step dec w1 e" "async_step dec w2 e"] Cons.prems(3) show ?case
    by (simp add: async_run_Cons)
qed

lemma in_step_run_forget:
  "in_step t w1 w2 \<Longrightarrow> awaiting w1 = bad # awaiting w2 \<Longrightarrow>
   dec (the (inlineData bad)) = None \<Longrightarrow> \<forall>e\<in>set evs. arrives_after t e \<Longrightarrow>
     in_step t (async_run dec w1 evs) (async_run dec w2 (forget_head evs))"
proof (induction evs arbitrary: w1 w2 rule: forget_head.induct)
  case 1
  then show ?case by (simp add: async_run_def)
next
  case (2 t' es)
  from "2.prems"(2) have k: "0 < length (awaiting w1)" and b: "awaiting w1 ! 0 = bad"
    by simp_all
  with "2.prems"(3) have "dec (the (inlineData (awaiting w1 ! 0))) = None" by simp
  from decode_done_fail [of 0 w1 dec t', OF k this] "2.prems"(2)
  have w1: "async_step dec w1 (t', DecodeDone 0) = w1\<lparr>awaiting := awaiting w2\<rparr>" by simp
  from "2.prems"(1) have "in_step t (w1\<lparr>awaiting := awaiting w2\<rparr>) w2"
    by (simp add: in_step_def)
  from in_step_run [OF this, of es dec] "2.prems"(4) show ?case
    by (simp add: async_run_Cons w1)
next
  case (3 t' k es)
  from "3.prems"(2) have aw: "awaiting w1 = [bad] @ awaiting w2" by simp
  from in_step_done [OF "3.prems"(1) aw, of dec t' k]
  have s: "in_step t (async_step dec w1 (t', DecodeDone (Suc k)))
        (async_step dec w2 (t', DecodeDone k))"
    and a: "awaiting (async_step dec w1 (t', DecodeDone (Suc k)))
        = bad # awaiting (async_step dec w2 (t', DecodeDone k))"
    by simp_all
  from "3.IH" [OF s a "3.prems"(3)] "3.prems"(4) show ?case
    by (simp add: async_run_Cons)
next
  case (4 t' m es)
  from "4.prems"(2) have aw: "awaiting w1 = [bad] @ awaiting w2" by simp
  from "4.prems"(4) have "t \<le> t'" by (simp add: arrives_after_def)
  from in_step_arrive [OF "4.prems"(1) aw this, of dec m]
  have s: "in_step t (async_step dec w1 (t', Arrive m)) (async_step dec w2 (t', Arrive m))"
    and a: "awaiting (async_step dec w1 (t', Arrive m))
        = bad # awaiting (async_step dec w2 (t', Arrive m))"
    by simp_all
  from "4.IH" [OF s a "4.prems"(3)] "4.prems"(4) show ?case
    by (simp add: async_run_Cons)
next
  case (5 t' i es)
  from "5.prems"(2) have aw: "awaiting w1 = [bad] @ awaiting w2" by simp
  from in_step_ended [OF "5.prems"(1) aw, of dec t' i]
  have s: "in_step t (async_step dec w1 (t', SourceEnded i))
        (async_step dec w2 (t', SourceEnded i))"
    and a: "awaiting (async_step dec w1 (t', SourceEnded i))
        = bad # awaiting (async_step dec w2 (t', SourceEnded i))"
    by simp_all
  from "5.IH" [OF s a "5.prems"(3)] "5.prems"(4) show ?case
    by (simp add: async_run_Cons)
qed

text \<open>
  C6, as the code has it. When the payload of an inbound chunk (one that carries no
  interruption) fails to decode, in any state of the pipeline: the handler is rejected
  and that chunk alone is dropped, no source is created, started or stopped and the live
  set is as it was. The scheduler state is not left as it was: when the chunk arrived,
  before the decode, the cursor was raised to \<open>max(cursor, now)\<close> (line 351). The
  pipeline goes on. When no decode is pending at the arrival of the malformed chunk,
  then whatever events follow, in any interleaving, the messages arriving at clocks no
  earlier than \<open>now\<close>: the sources started, the start times they are given, the sources
  stopped and the live set are those of the stream from which the malformed chunk is
  absent.
\<close>

theorem malformed_chunk_raises_cursor_only:
  assumes "truthy (inlineData bad)" and "dec (the (inlineData bad)) = None"
    and "\<not> interrupted bad"
  shows "(audioContextRef (sched w) \<longrightarrow>
            async_step dec w (now, Arrive bad)
              = w\<lparr>sched := (sched w)\<lparr>nextStartTimeRef := max (nextStartTimeRef (sched w)) now\<rparr>,
                   awaiting := awaiting w @ [bad]\<rparr>)
         \<and> (\<forall>w' k t. k < length (awaiting w') \<and> awaiting w' ! k = bad \<longrightarrow>
                async_step dec w' (t, DecodeDone k)
                  = w'\<lparr>awaiting := take k (awaiting w') @ drop (Suc k) (awaiting w')\<rparr>)
         \<and> (audioContextRef (sched w) \<and> awaiting w = [] \<longrightarrow>
              (\<forall>evs. (\<forall>e\<in>set evs. arrives_after now e) \<longrightarrow>
                 (let r1 = async_run dec w ((now, Arrive bad) # evs);
                      r2 = async_run dec w (forget_head evs)
                  in started (sched r1) = started (sched r2)
                     \<and> sourcesRef (sched r1) = sourcesRef (sched r2)
                     \<and> stopped (sched r1) = stopped (sched r2)
                     \<and> created (sched r1) = created (sched r2)
                     \<and> max (nextStartTimeRef (sched r1)) now
                         = max (nextStartTimeRef (sched r2)) now)))"
proof (intro conjI impI allI)
  assume "audioContextRef (sched w)"
  with assms(1) show "async_step dec w (now, Arrive bad)
      = w\<lparr>sched := (sched w)\<lparr>nextStartTimeRef := max (nextStartTimeRef (sched w)) now\<rparr>,
           awaiting := awaiting w @ [bad]\<rparr>"
    by (simp add: arrive_audio sync_timing_def)
next
  fix w' :: world and k t
  assume "k < length (awaiting w') \<and> awaiting w' ! k = bad"
  then have k: "k < length (awaiting w')"
    and d: "dec (the (inlineData (awaiting w' ! k))) = None"
    using assms(2) by simp_all
  show "async_step dec w' (t, DecodeDone k)
      = w'\<lparr>awaiting := take k (awaiting w') @ drop (Suc k) (awaiting w')\<rparr>"
    using decode_done_fail [of k w' dec t, OF k d] .
next
  fix evs
  assume idle: "audioContextRef (sched w) \<and> awaiting w = []"
    and evs: "\<forall>e\<in>set evs. arrives_after now e"
  let ?w1 = "async_step dec w (now, Arrive bad)"
  from idle assms(1) have w1: "?w1 = w\<lparr>sched := sync_timing now (sched w), awaiting := [bad]\<rparr>"
    by (simp add: arrive_audio)
  have s: "in_step now ?w1 w"
    using idle by (simp add: w1 in_step_def same_but_cursor_def sync_timing_def)
  have a: "awaiting ?w1 = bad # awaiting w"
    using idle by (simp add: w1)
  from in_step_run_forget [of now ?w1 w bad dec evs, OF s a assms(2) evs]
  have "same_but_cursor now (sched (async_run dec ?w1 evs))
      (sched (async_run dec w (forget_head evs)))"
    by (simp add: in_step_def)
  then show "let r1 = async_run dec w ((now, Arrive bad) # evs);
          r2 = async_run dec w (forget_head evs)
      in started (sched r1) = started (sched r2)
         \<and> sourcesRef (sched r1) = sourcesRef (sched r2)
         \<and> stopped (sched r1) = stopped (sched r2)
         \<and> created (sched r1) = created (sched r2)
         \<and> max (nextStartTimeRef (sched r1)) now = max (nextStartTimeRef (sched r2)) now"
    by (simp add: Let_def async_run_Cons same_but_cursor_def)
qed

text \<open>
  A malformed chunk arrives at clock 1 with no decode pending, then a good chunk of
  0.5 s at clock 1 whose decode completes first (at 3/2); the malformed one fails at
  clock 2; another good chunk arrives at clock 3 and is decoded at clock 4. The sources
  are started at 1 and 3, as they are when the malformed chunk never arrives.
\<close>

theorem malformed_chunk_raises_cursor_only_witness:
  "truthy (inlineData \<lparr>inlineData = Some ''bad'', interrupted = False\<rparr>)
   \<and> (\<lambda>p. if p = ''ok'' then Some 12000 else None)
        (the (inlineData \<lparr>inlineData = Some ''bad'', interrupted = False\<rparr>)) = (None :: nat option)
   \<and> \<not> interrupted \<lparr>inlineData = Some ''bad'', interrupted = False\<rparr>
   \<and> audioContextRef (sched (idle_world initial_scheduler))
   \<and> awaiting (idle_world initial_scheduler) = []
   \<and> list_all (arrives_after 1)
        [(1, Arrive \<lparr>inlineData = Some ''ok'', interrupted = False\<rparr>), (3/2, DecodeDone 1),
         (2, DecodeDone 0),
         (3, Arrive \<lparr>inlineData = Some ''ok'', interrupted = False\<rparr>), (4, DecodeDone 0)]
   \<and> forget_head
        [(1, Arrive \<lparr>inlineData = Some ''ok'', interrupted = False\<rparr>), (3/2, DecodeDone 1),
         (2, DecodeDone 0),
         (3, Arrive \<lparr>inlineData = Some ''ok'', interrupted = False\<rparr>), (4, DecodeDone 0)]
      = [(1, Arrive \<lparr>inlineData = Some ''ok'', interrupted = False\<rparr>), (3/2, DecodeDone 0),
         (3, Arrive \<lparr>inlineData = Some ''ok'', interrupted = False\<rparr>), (4, DecodeDone 0)]
   \<and> map (\<lambda>(t, n). (t, startTime n)) (started (sched (async_run
        (\<lambda>p. if p = ''ok'' then Some 12000 else None) (idle_world initial_scheduler)
        ((1, Arrive \<lparr>inlineData = Some ''bad'', interrupted = False\<rparr>)
         # [(1, Arrive \<lparr>inlineData = Some ''ok'', interrupted = False\<rparr>), (3/2, DecodeDone 1),
            (2, DecodeDone 0),
            (3, Arrive \<lparr>inlineData = Some ''ok'', interrupted = False\<rparr>), (4, DecodeDone 0)]))))
      = [(3/2, 1), (4, 3)]"
proof -
  let ?dec = "\<lambda>p. if p = ''ok'' then Some (12000::nat) else None"
  let ?bad = "\<lparr>inlineData = Some ''bad'', interrupted = False\<rparr>"
  let ?ok = "\<lparr>inlineData = Some ''ok'', interrupted = False\<rparr>"
  let ?w = "idle_world initial_scheduler"
  let ?evs = "[(1, Arrive ?ok), (3/2, DecodeDone 1), (2, DecodeDone 0), (3, Arrive ?ok),
      (4::rat, DecodeDone 0)]"
  have h: "truthy (inlineData ?bad)" "?dec (the (inlineData ?bad)) = None" "\<not> interrupted ?bad"
    by (simp_all add: truthy_def)
  have i: "audioContextRef (sched ?w)" "awaiting ?w = []"
    by (simp_all add: idle_world_def initial_scheduler_def)
  have e: "\<forall>e\<in>set ?evs. arrives_after 1 e" by (simp add: arrives_after_def)
  have f: "forget_head ?evs
      = [(1, Arrive ?ok), (3/2, DecodeDone 0), (3, Arrive ?ok), (4, DecodeDone 0)]"
    by (simp add: numeral_2_eq_2 eval_nat_numeral)
  from malformed_chunk_raises_cursor_only [of ?bad ?dec ?w 1, OF h] i e
  have "started (sched (async_run ?dec ?w ((1, Arrive ?bad) # ?evs)))
      = started (sched (async_run ?dec ?w (forget_head ?evs)))"
    unfolding Let_def by blast
  moreover have "map (\<lambda>(t, n). (t, startTime n))
      (started (sched (async_run ?dec ?w (forget_head ?evs)))) = [(3/2, 1), (4, 3)]"
    unfolding f
    by (simp add: async_run_def async_step.simps idle_world_def initial_scheduler_def
        onmessage_begin_def onmessage_resume_def decodeAudioData_def truthy_def sync_timing_def
        schedule_source_def handle_interrupted_def duration_def Let_def)
  ultimately have v: "map (\<lambda>(t, n). (t, startTime n))
      (started (sched (async_run ?dec ?w ((1, Arrive ?bad) # ?evs)))) = [(3/2, 1), (4, 3)]"
    by simp
  have l: "list_all (arrives_after 1) ?evs" using e by (simp add: list_all_iff)
  from h i l f v show ?thesis by blast
qed

text \<open>
  The claim as the spec states it fails: from the initial state (cursor 0) a malformed
  chunk handled at clock 1 leaves the cursor at 1. And a chunk is being decoded since
  clock 1 when a malformed chunk arrives at clock 2; the decode completes at clock 3:
  the source is started at 2, and at 1 when the malformed chunk does not arrive.
\<close>

theorem malformed_chunk_moves_cursor:
  "snd (onmessage (\<lambda>p. None) 1 \<lparr>inlineData = Some ''bad'', interrupted = False\<rparr>
         initial_scheduler) \<noteq> initial_scheduler
   \<and> nextStartTimeRef (snd (onmessage (\<lambda>p. None) 1
        \<lparr>inlineData = Some ''bad'', interrupted = False\<rparr> initial_scheduler)) = 1
   \<and> nextStartTimeRef initial_scheduler = 0
   \<and> nextStartTimeRef (sched (async_run (\<lambda>p. None) (idle_world initial_scheduler)
        [(1, Arrive \<lparr>inlineData = Some ''bad'', interrupted = False\<rparr>), (2, DecodeDone 0)])) = 1
   \<and> map (\<lambda>(t, n). (t, startTime n)) (started (sched (async_run
        (\<lambda>p. if p = ''ok'' then Some 12000 else None) (idle_world initial_scheduler)
        [(1, Arrive \<lparr>inlineData = Some ''ok'', interrupted = False\<rparr>),
         (2, Arrive \<lparr>inlineData = Some ''bad'', interrupted = False\<rparr>),
         (3, DecodeDone 0)]))) = [(3, 2)]
   \<and> map (\<lambda>(t, n). (t, startTime n)) (started (sched (async_run
        (\<lambda>p. if p = ''ok'' then Some 12000 else None) (idle_world initial_scheduler)
        [(1, Arrive \<lparr>inlineData = Some ''ok'', interrupted = False\<rparr>),
         (3, DecodeDone 0)]))) = [(3, 1)]"
  by (simp add: onmessage_def async_run_def async_step.simps idle_world_def
      onmessage_begin_def onmessage_resume_def decodeAudioData_def sync_timing_def truthy_def
      schedule_source_def handle_interrupted_def initial_scheduler_def Let_def)

section \<open>Properties of capture, the start turn and teardown\<close>

text \<open>
  C4, at the failing input. The component mounts, the transport opens, the user mutes
  (one click on the mic button), and a capture frame \<open>f\<close> is produced: \<open>micActive\<close> and
  \<open>micActiveRef\<close> are false, the analyser has seen the frame, and the frame's blob is sent
  all the same, since the callback reads the \<open>micActive\<close> it closed over at mount.
\<close>

theorem muted_frame_is_still_sent:
  "micActive (capture_run createPcmBlob mount [Open, ToggleMic, Frame f]) = False
   \<and> micActiveRef (capture_run createPcmBlob mount [Open, ToggleMic, Frame f]) = False
   \<and> analysed (capture_run createPcmBlob mount [Open, ToggleMic, Frame f]) = [f]
   \<and> sent (capture_run createPcmBlob mount [Open, ToggleMic, Frame f])
       = [start_turn, RealtimeInput (createPcmBlob f)]"
  by (simp add: capture_run_def mount_def initSession_def onopen_def toggleMic_def
      capture_frame_def onaudioprocess_def Let_def)

subsection \<open>The start turn\<close>

lemma capture_run_Cons:
  "capture_run cp s (e # es) = capture_run cp (capture_step cp s e) es"
  by (simp add: capture_run_def)

lemma capture_run_append:
  "capture_run cp s (xs @ ys) = capture_run cp (capture_run cp s xs) ys"
  by (simp add: capture_run_def)

lemma closed_sends_nothing:
  "Open \<notin> set evs \<Longrightarrow> \<not> onaudioprocess_set s \<Longrightarrow>
     sent (capture_run cp s evs) = sent s \<and> \<not> onaudioprocess_set (capture_run cp s evs)"
proof (induction evs arbitrary: s)
  case Nil
  then show ?case by (simp add: capture_run_def)
next
  case (Cons e es)
  from Cons.prems have "sent (capture_step cp s e) = sent s"
    and "\<not> onaudioprocess_set (capture_step cp s e)"
    by (cases e; simp add: toggleMic_def capture_frame_def Let_def)+
  with Cons.IH [of "capture_step cp s e"] Cons.prems(1) show ?case
    by (simp add: capture_run_Cons)
qed

lemma open_sends_media_only:
  "Open \<notin> set evs \<Longrightarrow>
     \<exists>blobs. sent (capture_run cp s evs) = sent s @ map RealtimeInput blobs"
proof (induction evs arbitrary: s)
  case Nil
  then show ?case by (simp add: capture_run_def)
next
  case (Cons e es)
  from Cons.prems have "\<exists>b1. sent (capture_step cp s e) = sent s @ map RealtimeInput b1"
  proof (cases e)
    case Open
    with Cons.prems show ?thesis by simp
  next
    case ToggleMic
    then show ?thesis by (simp add: toggleMic_def)
  next
    case (Frame f)
    show ?thesis
    proof (cases "onaudioprocess_set s \<and> closure_micActive s")
      case True
      with Frame have "sent (capture_step cp s e) = sent s @ map RealtimeInput [cp f]"
        by (simp add: capture_frame_def onaudioprocess_def Let_def)
      then show ?thesis by blast
    next
      case False
      with Frame have "sent (capture_step cp s e) = sent s @ map RealtimeInput []"
        by (auto simp add: capture_frame_def onaudioprocess_def Let_def)
      then show ?thesis by blast
    qed
  qed
  then obtain b1 where b1: "sent (capture_step cp s e) = sent s @ map RealtimeInput b1"
    by blast
  from Cons.IH [of "capture_step cp s e"] Cons.prems obtain b2 where
    "sent (capture_run cp (capture_step cp s e) es)
       = sent (capture_step cp s e) @ map RealtimeInput b2"
    by auto
  with b1 have "sent (capture_run cp s (e # es)) = sent s @ map RealtimeInput (b1 @ b2)"
    by (simp add: capture_run_Cons)
  then show ?case by blast
qed

text \<open>
  C8. Whatever frames and mute clicks come before the transport opens and after it (the
  transport opening once): nothing is sent before \<open>onopen\<close>; \<open>onopen\<close> sends the start
  turn, role user, \<open>turnComplete\<close> true, as the first thing sent; and everything sent
  afterwards is a media blob, so the start turn is sent exactly once and before any blob.
\<close>

theorem start_turn_sent_once_on_open:
  fixes createPcmBlob :: "'f \<Rightarrow> 'b"
  assumes "Open \<notin> set before" and "Open \<notin> set after"
  shows "sent (capture_run createPcmBlob mount before) = []
         \<and> sent (capture_run createPcmBlob mount (before @ [Open])) = [start_turn]
         \<and> (\<exists>blobs. sent (capture_run createPcmBlob mount (before @ [Open] @ after))
                      = start_turn # map RealtimeInput blobs)
         \<and> (start_turn :: 'b outbound) = ClientContent ''user''
              ''The show is starting. Introduce yourself and ask the first question now.'' True"
proof -
  have m: "\<not> onaudioprocess_set (mount :: ('f, 'b) live_session)"
    "sent (mount :: ('f, 'b) live_session) = []"
    by (simp_all add: mount_def initSession_def)
  from closed_sends_nothing [OF assms(1) m(1), of createPcmBlob] m(2)
  have 1: "sent (capture_run createPcmBlob mount before) = []" by simp
  then have 2: "sent (capture_run createPcmBlob mount (before @ [Open])) = [start_turn]"
    by (simp add: capture_run_append capture_run_def onopen_def)
  have split: "capture_run createPcmBlob mount (before @ [Open] @ after)
      = capture_run createPcmBlob (capture_run createPcmBlob mount (before @ [Open])) after"
    using capture_run_append [of createPcmBlob mount "before @ [Open]" after] by simp
  from open_sends_media_only [OF assms(2), of createPcmBlob
      "capture_run createPcmBlob mount (before @ [Open])"] 2
  have 3: "\<exists>blobs. sent (capture_run createPcmBlob mount (before @ [Open] @ after))
      = start_turn # map RealtimeInput blobs"
    unfolding split by simp
  from 1 2 3 show ?thesis by (simp add: start_turn_def)
qed

text \<open>
  A frame and a mute click before the transport opens, two frames after it (the stale
  closure still sends them).
\<close>

theorem start_turn_sent_once_on_open_witness:
  "Open \<notin> set [Frame (1::nat), ToggleMic] \<and> Open \<notin> set [Frame (2::nat), Frame 3]
   \<and> sent (capture_run (\<lambda>f. f) mount ([Frame (1::nat), ToggleMic] @ [Open]))
       = [start_turn :: nat outbound]
   \<and> sent (capture_run (\<lambda>f. f) mount ([Frame (1::nat), ToggleMic] @ [Open] @ [Frame 2, Frame 3]))
       = [start_turn, RealtimeInput 2, RealtimeInput 3]"
proof -
  have h: "Open \<notin> set [Frame (1::nat), ToggleMic]" "Open \<notin> set [Frame (2::nat), Frame 3]"
    by simp_all
  have v: "sent (capture_run (\<lambda>f. f) mount ([Frame (1::nat), ToggleMic] @ [Open] @ [Frame 2, Frame 3]))
       = [start_turn, RealtimeInput 2, RealtimeInput 3]"
    by (simp add: capture_run_def mount_def initSession_def onopen_def toggleMic_def
        capture_frame_def onaudioprocess_def Let_def)
  from start_turn_sent_once_on_open [OF h, of "\<lambda>f. f"]
  have "sent (capture_run (\<lambda>f. f) mount ([Frame (1::nat), ToggleMic] @ [Open]))
       = [start_turn :: nat outbound]"
    by (rule conjunct1 [OF conjunct2])
  with h v show ?thesis by blast
qed

subsection \<open>Teardown\<close>






section \<open>Properties of the visual quiz\<close>

lemma set_insert_by: "set (insert_by compare x ys) = insert x (set ys)"
  by (induction ys) auto

lemma set_sort_by: "set (sort_by compare xs) = set xs"
  by (induction xs) (simp_all add: sort_by_def set_insert_by)

lemma length_insert_by: "length (insert_by compare x ys) = Suc (length ys)"
  by (induction ys) auto

lemma length_sort_by: "length (sort_by compare xs) = length xs"
  by (induction xs) (simp_all add: sort_by_def length_insert_by)

lemma sorted_insert_by_score:
  "sorted_wrt (\<lambda>a b. score b \<le> score a) ys \<Longrightarrow>
     sorted_wrt (\<lambda>a b. score b \<le> score a) (insert_by (\<lambda>a b. score b - score a) x ys)"
  by (induction ys) (auto simp add: set_insert_by)

lemma sorted_sort_by_score:
  "sorted_wrt (\<lambda>a b. score b \<le> score a) (sort_by (\<lambda>a b. score b - score a) xs)"
proof (induction xs)
  case Nil
  then show ?case by (simp add: sort_by_def)
next
  case (Cons x xs)
  have "sort_by (\<lambda>a b. score b - score a) (x # xs)
      = insert_by (\<lambda>a b. score b - score a) x (sort_by (\<lambda>a b. score b - score a) xs)"
    by (simp add: sort_by_def)
  with sorted_insert_by_score [OF Cons] show ?case by simp
qed

lemma sorted_wrt_take: "sorted_wrt P xs \<Longrightarrow> sorted_wrt P (take n xs)"
proof (induction xs arbitrary: n)
  case Nil
  then show ?case by simp
next
  case (Cons x xs)
  then show ?case by (cases n) (auto dest: in_set_takeD)
qed

text \<open>
  C9. Every save of a score (a click on the save button with a name that is not blank)
  leaves under the leaderboard key a list of entries \<open>{name, score, topic, difficulty,
  date}\<close> that is sorted by score, highest first, and has at most 50 entries; its entries
  are entries that were stored before or the new one, which carries the player's name,
  score, topic and difficulty.
\<close>

theorem saved_leaderboard_sorted_and_capped:
  assumes "trim playerName \<noteq> []"
  shows "\<exists>updated. handleSaveScore playerName sc tp df stamp stored = Some updated
           \<and> sorted_wrt (\<lambda>a b. score b \<le> score a) updated
           \<and> length updated \<le> 50
           \<and> set updated
               \<subseteq> insert \<lparr>name = playerName, score = sc, topic = tp, difficulty = df, date = stamp\<rparr>
                   (case stored of None \<Rightarrow> {} | Some l \<Rightarrow> set l)"
proof -
  let ?entry = "\<lparr>name = playerName, score = sc, topic = tp, difficulty = df, date = stamp\<rparr>"
  let ?existing = "case stored of None \<Rightarrow> [] | Some l \<Rightarrow> l"
  let ?updated = "take 50 (sort_by (\<lambda>a b. score b - score a) (?existing @ [?entry]))"
  have 1: "handleSaveScore playerName sc tp df stamp stored = Some ?updated"
    using assms by (simp add: handleSaveScore_def Let_def)
  have 2: "sorted_wrt (\<lambda>a b. score b \<le> score a) ?updated"
    by (rule sorted_wrt_take) (rule sorted_sort_by_score)
  have 3: "length ?updated \<le> 50" by simp
  have "set ?updated \<subseteq> set (?existing @ [?entry])"
    using set_take_subset [of 50 "sort_by (\<lambda>a b. score b - score a) (?existing @ [?entry])"]
    by (simp only: set_sort_by)
  then have 4: "set ?updated \<subseteq> insert ?entry (case stored of None \<Rightarrow> {} | Some l \<Rightarrow> set l)"
    by (cases stored) auto
  from 1 2 3 4 show ?thesis by blast
qed

text \<open>A score of 180 saved into a board holding 300 and 80.\<close>

theorem saved_leaderboard_sorted_and_capped_witness:
  "trim ''Ada '' \<noteq> []
   \<and> map score (the (handleSaveScore ''Ada '' 180 ''Space'' ''Medium'' ''2026-01-01T00:00:00.000Z''
        (Some [\<lparr>name = ''Bo'', score = 300, topic = ''Space'', difficulty = ''Easy'', date = ''d1''\<rparr>,
               \<lparr>name = ''Cy'', score = 80, topic = ''Cats'', difficulty = ''Hard'', date = ''d2''\<rparr>])))
       = [300, 180, 80]
   \<and> sorted_wrt (\<lambda>a b. score b \<le> score a)
        (the (handleSaveScore ''Ada '' 180 ''Space'' ''Medium'' ''2026-01-01T00:00:00.000Z''
        (Some [\<lparr>name = ''Bo'', score = 300, topic = ''Space'', difficulty = ''Easy'', date = ''d1''\<rparr>,
               \<lparr>name = ''Cy'', score = 80, topic = ''Cats'', difficulty = ''Hard'', date = ''d2''\<rparr>])))"
proof -
  let ?stored = "Some [\<lparr>name = ''Bo'', score = 300, topic = ''Space'', difficulty = ''Easy'', date = ''d1''\<rparr>,
               \<lparr>name = ''Cy'', score = 80, topic = ''Cats'', difficulty = ''Hard'', date = ''d2''\<rparr>]"
  have h: "trim ''Ada '' \<noteq> []" by (simp add: trim_def is_space_def)
  from saved_leaderboard_sorted_and_capped [OF h, of 180 "''Space''" "''Medium''"
      "''2026-01-01T00:00:00.000Z''" ?stored]
  have s: "sorted_wrt (\<lambda>a b. score b \<le> score a)
      (the (handleSaveScore ''Ada '' 180 ''Space'' ''Medium'' ''2026-01-01T00:00:00.000Z'' ?stored))"
    by auto
  have v: "map score (the (handleSaveScore ''Ada '' 180 ''Space'' ''Medium''
      ''2026-01-01T00:00:00.000Z'' ?stored)) = [300, 180, 80]"
    using h by (simp add: handleSaveScore_def sort_by_def Let_def)
  from h s v show ?thesis by blast
qed

subsection \<open>The score\<close>

lemma handleAnswer_score:
  "q_score (handleAnswer option st) =
     (if accepted st
      then (if option = current_answer st then q_score st + 100 else max 0 (q_score st - 20))
      else q_score st)"
  by (auto simp add: handleAnswer_def accepted_def current_answer_def Let_def
      split: option.splits)

lemma nextQuestion_score: "q_score (nextQuestion st) = q_score st"
  by (simp add: nextQuestion_def split: option.splits)

lemma quiz_step_nonneg: "0 \<le> q_score st \<Longrightarrow> 0 \<le> q_score (quiz_step st a)"
  by (cases a) (simp_all add: handleAnswer_score nextQuestion_score)

lemma quiz_run_nonneg: "0 \<le> q_score st \<Longrightarrow> 0 \<le> q_score (quiz_run st acts)"
proof (induction acts arbitrary: st)
  case Nil
  then show ?case by (simp add: quiz_run_def)
next
  case (Cons a acts)
  from Cons.IH [OF quiz_step_nonneg [OF Cons.prems, of a]] show ?case
    by (simp add: quiz_run_def)
qed

text \<open>
  C10. The score starts at 0 and is never negative, whatever the player does. An answer
  that is taken (no answer to the current question yet) adds exactly 100 when it is the
  correct answer and otherwise takes 20 off, stopping at 0; an answer that is not taken,
  and every other action, leaves the score as it is.
\<close>

theorem score_never_negative:
  "q_score initial_quiz = 0
   \<and> 0 \<le> q_score (quiz_run initial_quiz acts)
   \<and> q_score (quiz_step st (Answer option))
       = (if accepted st
          then (if option = current_answer st then q_score st + 100
                else max 0 (q_score st - 20))
          else q_score st)
   \<and> q_score (quiz_step st (Loaded qs)) = q_score st
   \<and> q_score (quiz_step st Next) = q_score st
   \<and> q_score (quiz_step st (SetName n)) = q_score st"
proof -
  have 0: "q_score initial_quiz = 0" by (simp add: initial_quiz_def)
  then have 1: "0 \<le> q_score (quiz_run initial_quiz acts)"
    by (intro quiz_run_nonneg) simp
  from 0 1 show ?thesis
    by (simp add: handleAnswer_score nextQuestion_score)
qed

end
